theory Spec2Isabelle
  imports Main "HOL-Library.Sublist" "HOL-Library.Char_ord" "HOL-Library.List_Lexorder"
begin

section \<open>JavaScript values\<close>

text \<open>
  Values of TypeScript type \<open>any\<close>. Numbers are restricted to the integers and \<open>NaN\<close>;
  objects are their own enumerable string-keyed properties in insertion order.
\<close>

datatype jsval =
    JUndefined
  | JNull
  | JBool bool
  | JNum int
  | JNaN
  | JStr string
  | JArr "jsval list"
  | JObj "(string \<times> jsval) list"

text \<open>\<open>Boolean(v)\<close>, and the test of \<open>if (v)\<close>: the falsy values are \<open>undefined\<close>,
  \<open>null\<close>, \<open>false\<close>, \<open>0\<close>, \<open>NaN\<close> and the empty string.\<close>

fun truthy :: "jsval \<Rightarrow> bool" where
  "truthy JUndefined = False"
| "truthy JNull = False"
| "truthy (JBool b) = b"
| "truthy (JNum n) = (n \<noteq> 0)"
| "truthy JNaN = False"
| "truthy (JStr s) = (s \<noteq> [])"
| "truthy (JArr _) = True"
| "truthy (JObj _) = True"

datatype js_error = TypeError | NetworkError | SyntaxError | ModuleNotFound

section \<open>dev.ts: the manifest and its differ\<close>

record SchemaMap =
  component :: string
  schema :: jsval

record DevManifest =
  routes :: "string list"
  islands :: "string list"
  components :: "string list"
  schemas :: "SchemaMap list"

text \<open>
  \<open>arraysEqual\<close>: the length test, then the indexed loop \<open>for (i = 0; i < a.length; ++i)\<close>
  that returns false at the first index where \<open>a[i] !== b[i]\<close>. It is only called on
  arrays of strings, where \<open>!==\<close> is inequality of values.
\<close>

function arraysEqual_loop :: "string list \<Rightarrow> string list \<Rightarrow> nat \<Rightarrow> bool" where
  "arraysEqual_loop a b i =
     (if i < length a
      then (if a ! i \<noteq> b ! i then False else arraysEqual_loop a b (i + 1))
      else True)"
  by pat_completeness auto
termination
  by (relation "measure (\<lambda>(a, b, i). length a - i)") auto

declare arraysEqual_loop.simps [simp del]

definition arraysEqual :: "string list \<Rightarrow> string list \<Rightarrow> bool" where
  "arraysEqual a b = (if length a \<noteq> length b then False else arraysEqual_loop a b 0)"

definition manifestChanged :: "DevManifest \<Rightarrow> DevManifest \<Rightarrow> bool" where
  "manifestChanged newManifest currentManifest =
     (\<not> arraysEqual (routes newManifest) (routes currentManifest) \<or>
      \<not> arraysEqual (islands newManifest) (islands currentManifest) \<or>
      \<not> arraysEqual (components newManifest) (components currentManifest))"

text \<open>
  The effects of \<open>dev\<close> that can be observed from outside, in the order in which the
  function performs them.
\<close>

datatype dev_effect =
    EnvSet DevManifest
  | Generate DevManifest
  | OnListen
  | ImportEntrypoint string

fun isGenerate :: "dev_effect \<Rightarrow> bool" where
  "isGenerate (Generate _) = True"
| "isGenerate _ = False"

text \<open>
  \<open>dev\<close>. The previous manifest is what \<open>JSON.parse\<close> gives for the environment variable
  \<open>FRSH_DEV_PREVIOUS_MANIFEST\<close>, \<open>None\<close> when the variable is unset or empty. The results
  of the three discovery calls (\<open>collect\<close>, \<open>collectComponents\<close>,
  \<open>collectComponentsSchemas\<close>) are arguments: \<open>collected\<close> carries the routes and islands,
  \<open>comps\<close> the components, \<open>schs\<close> the schemas. The call of \<open>generate\<close> is one effect; what
  happens inside it (formatting, writing the file) is not part of the model.
\<close>

definition restoreManifest :: "DevManifest option \<Rightarrow> DevManifest" where
  "restoreManifest prevManifest =
     (case prevManifest of
        Some m \<Rightarrow> m
      | None \<Rightarrow> \<lparr>routes = [], islands = [], components = [], schemas = []\<rparr>)"

definition dev ::
  "DevManifest option \<Rightarrow> DevManifest \<Rightarrow> string list \<Rightarrow> SchemaMap list \<Rightarrow> bool \<Rightarrow> string
     \<Rightarrow> dev_effect list" where
  "dev prevManifest collected comps schs onListen entrypoint =
     (let currentManifest = restoreManifest prevManifest;
          newManifest1 = collected\<lparr>components := comps\<rparr>;
          newManifest = newManifest1\<lparr>schemas := schs\<rparr>
      in [EnvSet newManifest1]
         @ (if manifestChanged newManifest currentManifest then [Generate newManifest] else [])
         @ (if onListen then [OnListen] else [])
         @ [ImportEntrypoint entrypoint])"

section \<open>dev.ts: collecting the schemas\<close>

text \<open>
  A loaded module is the list of its exports; \<open>componentModule.schema\<close> reads the export
  named \<open>schema\<close>, and a module without that export gives \<open>undefined\<close>.
\<close>

type_synonym js_module = "(string \<times> jsval) list"

definition module_schema :: "js_module \<Rightarrow> jsval" where
  "module_schema componentModule =
     (case map_of componentModule ''schema'' of None \<Rightarrow> JUndefined | Some v \<Rightarrow> v)"

datatype component_type = Islands | Components

text \<open>
  \<open>mapComponentToSchemaMap\<close>. The dynamic \<open>import\<close> of the module at
  \<open>join(directory, type, componentName)\<close> is the argument \<open>importModule\<close>, which says for a
  type and a name whether the import rejects or which module it gives.
  \<open>componentNameFromPath\<close> lives in \<open>utils/component.ts\<close> and is an argument as well. The
  result is the settlement of the promise: rejected, fulfilled with \<open>undefined\<close> (\<open>None\<close>),
  or fulfilled with a schema entry.
\<close>

definition mapComponentToSchemaMap ::
  "(string \<Rightarrow> string) \<Rightarrow> (component_type \<Rightarrow> string \<Rightarrow> js_error + js_module)
     \<Rightarrow> string \<Rightarrow> component_type \<Rightarrow> js_error + SchemaMap option" where
  "mapComponentToSchemaMap componentNameFromPath importModule componentName type =
     (case importModule type componentName of
        Inl e \<Rightarrow> Inl e
      | Inr componentModule \<Rightarrow>
          (let schema = module_schema componentModule
           in if \<not> truthy schema then Inr None
              else Inr (Some \<lparr>SchemaMap.component = componentNameFromPath componentName,
                              schema = schema\<rparr>)))"

text \<open>
  The two \<open>forEach\<close> loops that fill \<open>componentSchemasPromises\<close>: each push is recorded as
  the arguments of its call of \<open>mapComponentToSchemaMap\<close>. A component whose name is in the
  set of the islands is skipped.
\<close>

definition schemaRequests :: "string list \<Rightarrow> string list \<Rightarrow> (string \<times> component_type) list"
  where
  "schemaRequests islandNames componentNames =
     (let islandComponents = set islandNames;
          promises1 = foldl (\<lambda>promises islandName. promises @ [(islandName, Islands)])
                        [] islandNames
      in foldl (\<lambda>promises componentName.
                  if componentName \<in> islandComponents then promises
                  else promises @ [(componentName, Components)])
           promises1 componentNames)"

text \<open>
  \<open>Promise.all\<close>. The promises settle in an order that the program does not control:
  \<open>settleOrder\<close> lists indices of the array in the order in which they settle, and the
  indices it leaves out settle afterwards in the order of the array. The result is rejected
  with the first rejection in that order if there is one, and otherwise fulfilled with the
  values in the order of the array.
\<close>

definition rejections :: "nat list \<Rightarrow> (js_error + 'a) list \<Rightarrow> js_error list" where
  "rejections settleOrder promises =
     List.map_filter
       (\<lambda>i. if i < length promises
            then (case promises ! i of Inl e \<Rightarrow> Some e | Inr _ \<Rightarrow> None)
            else None)
       (settleOrder @ [0..<length promises])"

definition Promise_all :: "nat list \<Rightarrow> (js_error + 'a) list \<Rightarrow> js_error + 'a list" where
  "Promise_all settleOrder promises =
     (case rejections settleOrder promises of
        e # _ \<Rightarrow> Inl e
      | [] \<Rightarrow> Inr (List.map_filter (\<lambda>p. case p of Inl _ \<Rightarrow> None | Inr v \<Rightarrow> Some v) promises))"

text \<open>
  \<open>collectComponentsSchemas\<close>: the promises of the recorded calls, awaited together, then
  \<open>filter(Boolean)\<close>, which keeps the entries and drops the \<open>undefined\<close> results.
\<close>

definition collectComponentsSchemas ::
  "(string \<Rightarrow> string) \<Rightarrow> (component_type \<Rightarrow> string \<Rightarrow> js_error + js_module) \<Rightarrow> nat list
     \<Rightarrow> string list \<Rightarrow> string list \<Rightarrow> js_error + SchemaMap list" where
  "collectComponentsSchemas componentNameFromPath importModule settleOrder
       islandNames componentNames =
     (let componentSchemasPromises =
            map (\<lambda>(componentName, type).
                   mapComponentToSchemaMap componentNameFromPath importModule componentName type)
              (schemaRequests islandNames componentNames)
      in case Promise_all settleOrder componentSchemasPromises of
           Inl e \<Rightarrow> Inl e
         | Inr componentsSchemas \<Rightarrow> Inr (List.map_filter (\<lambda>value. value) componentsSchemas))"

text \<open>
  Notions used to state the properties of the collector: the entry made from a request
  when every requested module \<open>modules type name\<close> is loaded, whether that module has a
  truthy schema export, a module with its falsy schema export removed, and a small set of
  modules for the examples (a Hero with a schema, a Plain component without one, and
  modules whose schema export is 0).
\<close>

definition schemaEntry :: "(string \<Rightarrow> string) \<Rightarrow> (component_type \<Rightarrow> string \<Rightarrow> js_module) \<Rightarrow> string \<times> component_type \<Rightarrow> SchemaMap" where
  "schemaEntry componentNameFromPath modules r =
     \<lparr>SchemaMap.component = componentNameFromPath (fst r),
      schema = module_schema (modules (snd r) (fst r))\<rparr>"

definition hasSchema :: "(component_type \<Rightarrow> string \<Rightarrow> js_module) \<Rightarrow> string \<times> component_type \<Rightarrow> bool" where
  "hasSchema modules r = truthy (module_schema (modules (snd r) (fst r)))"

definition demoModules :: "component_type \<Rightarrow> string \<Rightarrow> js_module" where
  "demoModules t n =
     (if n = ''/Hero.tsx''
      then [(''default'', JStr ''Hero''), (''schema'', JObj [(''title'', JStr ''string'')])]
      else if n = ''/Plain.tsx'' then [(''default'', JStr ''Plain'')]
      else [(''default'', JStr ''Other''), (''schema'', JNum 0)])"

definition demoImport :: "component_type \<Rightarrow> string \<Rightarrow> js_error + js_module" where
  "demoImport t n =
     (if t = Components \<and> n = ''/Hero.tsx'' then Inl ModuleNotFound else Inr (demoModules t n))"

definition dropFalsySchema :: "js_module \<Rightarrow> js_module" where
  "dropFalsySchema m =
     (if truthy (module_schema m) then m else filter (\<lambda>(k, v). k \<noteq> ''schema'') m)"

section \<open>dev.ts: discovering the components\<close>

text \<open>
  The file system as \<open>collectComponents\<close> sees it: a path leads to nothing, to a file, to a
  directory with its named entries in listing order, or to an entry whose reading raises
  an error.
\<close>

datatype fs_error = NotFound | PermissionDenied | NotADirectory

datatype fsnode = File | Dir "(string \<times> fsnode) list" | Unreadable fs_error

type_synonym filesystem = "string \<Rightarrow> fsnode option"

text \<open>\<open>join(dir, "./components")\<close> for an absolute directory path.\<close>

definition componentsDirOf :: "string \<Rightarrow> string" where
  "componentsDirOf dir = (if dir = ''/'' then ''/components'' else dir @ ''/components'')"

text \<open>
  \<open>toFileUrl(path).href\<close> for an absolute path: the scheme with its empty host, then the
  path in which every character that a URL does not keep in a path is percent-encoded, that
  is written as \<open>%\<close> and the two hexadecimal digits of its byte. A string is the list of
  its bytes. Which characters are encoded depends on the version of the URL standard and
  of the library; the set is the argument \<open>unsafe\<close>. \<open>pathEncodeSet\<close> says what the results
  need from it: \<open>%\<close> itself is encoded, while the separator, the dot and the letters of the
  four extensions are kept, and every byte beyond the printable ASCII characters is
  encoded, so that the URL is an ASCII string.
\<close>

definition hexDigit :: "nat \<Rightarrow> char" where
  "hexDigit d = ''0123456789ABCDEF'' ! d"

definition percentEncode :: "(char \<Rightarrow> bool) \<Rightarrow> char \<Rightarrow> string" where
  "percentEncode unsafe c =
     (if unsafe c
      then [CHR ''%'', hexDigit (of_char c div 16), hexDigit (of_char c mod 16)]
      else [c])"

definition encodePath :: "(char \<Rightarrow> bool) \<Rightarrow> string \<Rightarrow> string" where
  "encodePath unsafe p = concat (map (percentEncode unsafe) p)"

definition toFileUrl :: "(char \<Rightarrow> bool) \<Rightarrow> string \<Rightarrow> string" where
  "toFileUrl unsafe p = ''file://'' @ encodePath unsafe p"

definition pathEncodeSet :: "(char \<Rightarrow> bool) \<Rightarrow> bool" where
  "pathEncodeSet unsafe =
     (unsafe CHR ''%'' \<and> \<not> unsafe CHR ''/'' \<and> \<not> unsafe CHR ''.'' \<and> \<not> unsafe CHR ''t''
      \<and> \<not> unsafe CHR ''s'' \<and> \<not> unsafe CHR ''x'' \<and> \<not> unsafe CHR ''j''
      \<and> (\<forall>c. (126 :: nat) < of_char c \<longrightarrow> unsafe c))"

text \<open>\<open>Deno.readDir\<close>: the entries of a directory, or the error raised.\<close>

definition readDir :: "filesystem \<Rightarrow> string \<Rightarrow> fs_error + (string \<times> fsnode) list" where
  "readDir fs p =
     (case fs p of
        None \<Rightarrow> Inl NotFound
      | Some File \<Rightarrow> Inl NotADirectory
      | Some (Unreadable e) \<Rightarrow> Inl e
      | Some (Dir entries) \<Rightarrow> Inr entries)"

text \<open>
  Modelled from the spec: the file-walking primitive (\<open>walk\<close> of the standard library) is
  an external collaborator. With \<open>includeDirs: false\<close> and \<open>exts\<close> it yields, depth first
  and in listing order, an entry for every file below the root whose path ends with a dot
  and one of the extensions; an entry that cannot be read ends the iteration with its
  error. The result is the entries yielded so far and the error, if any.
\<close>

record WalkEntry =
  path :: string
  isFile :: bool

definition hasExt :: "string list \<Rightarrow> string \<Rightarrow> bool" where
  "hasExt exts p = list_ex (\<lambda>ext. suffix (CHR ''.'' # ext) p) exts"

fun walk :: "string list \<Rightarrow> string \<Rightarrow> fsnode \<Rightarrow> WalkEntry list \<times> fs_error option"
and walk_entries ::
  "string list \<Rightarrow> string \<Rightarrow> (string \<times> fsnode) list \<Rightarrow> WalkEntry list \<times> fs_error option"
where
  "walk exts p File = (if hasExt exts p then [\<lparr>path = p, isFile = True\<rparr>] else [], None)"
| "walk exts p (Unreadable e) = ([], Some e)"
| "walk exts p (Dir entries) = walk_entries exts p entries"
| "walk_entries exts p [] = ([], None)"
| "walk_entries exts p ((n, t) # rest) =
     (case walk exts (p @ ''/'' @ n) t of
        (ys, Some e) \<Rightarrow> (ys, Some e)
      | (ys, None) \<Rightarrow> (case walk_entries exts p rest of (zs, r) \<Rightarrow> (ys @ zs, r)))"

definition allowedExts :: "string list" where
  "allowedExts = [''tsx'', ''jsx'', ''ts'', ''js'']"

text \<open>
  \<open>collectComponents\<close>. The \<open>try\<close> block reads the directory, then walks it and pushes the
  relative URL of every file entry; the \<open>catch\<close> swallows a not-found error, keeping what
  was pushed, and rethrows any other; then the array is sorted. \<open>sort()\<close> orders strings
  by their code units, which on ASCII strings is the lexicographic order of the character
  lists.
\<close>

definition collectComponents ::
  "(char \<Rightarrow> bool) \<Rightarrow> filesystem \<Rightarrow> string \<Rightarrow> fs_error + string list" where
  "collectComponents unsafe fs dir =
     (let componentsDir = componentsDirOf dir;
          componentsUrl = toFileUrl unsafe componentsDir
      in case readDir fs componentsDir of
           Inl err \<Rightarrow> (if err = NotFound then Inr (sort []) else Inl err)
         | Inr entries \<Rightarrow>
             (case walk allowedExts componentsDir (Dir entries) of
                (yielded, failure) \<Rightarrow>
                  (let comps = map (\<lambda>entry. drop (length componentsUrl)
                                            (toFileUrl unsafe (path entry)))
                                 (filter isFile yielded)
                   in case failure of
                        None \<Rightarrow> Inr (sort comps)
                      | Some err \<Rightarrow> (if err = NotFound then Inr (sort comps) else Inl err))))"

text \<open>
  Notions used to state the properties of the discoverer. A directory tree is well formed
  when the names in every directory are distinct and contain no separator, and readable
  when no entry in it raises an error. \<open>filesOf\<close> lists the files of a tree in listing
  order, each by its path relative to the root with the separator before every name.
  \<open>below r\<close> says that \<open>r\<close> continues a path at a separator or ends it, and \<open>relativeUrl\<close>
  is the string pushed for an entry. The two file systems serve the examples: one with
  components in two levels next to other files, one of them with a space in its name; one
  with a folder and a subfolder that cannot be read. \<open>exampleUnsafe\<close> is a set of encoded
  characters for the examples.
\<close>

fun readable :: "fsnode \<Rightarrow> bool"
and readable_entries :: "(string \<times> fsnode) list \<Rightarrow> bool" where
  "readable File = True"
| "readable (Unreadable e) = False"
| "readable (Dir entries) = readable_entries entries"
| "readable_entries [] = True"
| "readable_entries ((n, t) # rest) = (readable t \<and> readable_entries rest)"

fun filesOf :: "fsnode \<Rightarrow> string list"
and filesOf_entries :: "(string \<times> fsnode) list \<Rightarrow> string list" where
  "filesOf File = [[]]"
| "filesOf (Unreadable e) = []"
| "filesOf (Dir entries) = filesOf_entries entries"
| "filesOf_entries [] = []"
| "filesOf_entries ((n, t) # rest) =
     map (\<lambda>r. ''/'' @ n @ r) (filesOf t) @ filesOf_entries rest"

definition exampleUnsafe :: "char \<Rightarrow> bool" where
  "exampleUnsafe c = (of_char c < (33 :: nat) \<or> (126 :: nat) < of_char c \<or> c \<in> set ''%#?<>{}'')"

fun wellFormed :: "fsnode \<Rightarrow> bool"
and wellFormed_entries :: "(string \<times> fsnode) list \<Rightarrow> bool" where
  "wellFormed File = True"
| "wellFormed (Unreadable e) = True"
| "wellFormed (Dir entries) = wellFormed_entries entries"
| "wellFormed_entries [] = True"
| "wellFormed_entries ((n, t) # rest) =
     (CHR ''/'' \<notin> set n \<and> n \<notin> set (map fst rest) \<and> wellFormed t \<and> wellFormed_entries rest)"

definition exampleFs :: filesystem where
  "exampleFs = (\<lambda>p. if p = ''/app/components''
          then Some (Dir [(''b.tsx'', File), (''README.md'', File),
                          (''ui'', Dir [(''a.ts'', File), (''x.css'', File)]),
                          (''my comp.tsx'', File), (''a.tsx'', File)])
          else None)"

definition lockedFs :: filesystem where
  "lockedFs = (\<lambda>p. if p = ''/app/components''
          then Some (Dir [(''b.tsx'', File), (''locked'', Unreadable PermissionDenied),
                          (''a.tsx'', File)])
          else if p = ''/srv/components'' then Some (Unreadable PermissionDenied)
          else None)"

definition below :: "string \<Rightarrow> bool" where
  "below r = (r = [] \<or> (\<exists>q. r = CHR ''/'' # q))"

text \<open>
  The entries that a walk without error yields below \<open>p\<close> for the files \<open>rs\<close>, given by
  their relative paths.
\<close>

definition entriesOf :: "string list \<Rightarrow> string \<Rightarrow> string list \<Rightarrow> WalkEntry list" where
  "entriesOf exts p rs =
     map (\<lambda>r. \<lparr>path = p @ r, isFile = True\<rparr>) (filter (\<lambda>r. hasExt exts (p @ r)) rs)"

definition relativeUrl :: "(char \<Rightarrow> bool) \<Rightarrow> string \<Rightarrow> WalkEntry \<Rightarrow> string" where
  "relativeUrl unsafe componentsDir entry =
     drop (length (toFileUrl unsafe componentsDir)) (toFileUrl unsafe (path entry))"

section \<open>The editor form bridge (useEditorOperations)\<close>

text \<open>
  \<open>ComponentProp\<close> is \<open>Record<string, any>\<close>: the object's own enumerable properties, in
  insertion order. \<open>PageComponentData\<close> has an optional \<open>props\<close>; \<open>None\<close> is an absent
  (undefined) property bag.
\<close>

type_synonym ComponentProp = "(string \<times> jsval) list"

record PageComponentData =
  component :: string
  props :: "ComponentProp option"

text \<open>\<open>Object.keys(o)\<close>: the keys of the object's own enumerable properties.\<close>

definition Object_keys :: "ComponentProp \<Rightarrow> string list" where
  "Object_keys obj = map fst obj"

text \<open>
  \<open>mapComponentsToFormData\<close>: \<open>component.props || {}\<close>. An object is truthy, also the
  empty one, so only an absent bag is replaced by the empty object.
\<close>

definition mapComponentsToFormData :: "PageComponentData list \<Rightarrow> ComponentProp list" where
  "mapComponentsToFormData cs =
     map (\<lambda>c. case props c of None \<Rightarrow> [] | Some p \<Rightarrow> p) cs"

text \<open>
  A JavaScript array whose slots may hold \<open>undefined\<close> is a list of options. Reading an
  index beyond the length gives \<open>undefined\<close>; writing beyond the length extends the array,
  the skipped slots reading as \<open>undefined\<close> (a hole and a slot that holds \<open>undefined\<close> are
  not told apart; the bridge writes at the length at most, which skips no slot). Indices
  are natural numbers.
\<close>

definition js_get :: "'a option list \<Rightarrow> nat \<Rightarrow> 'a option" where
  "js_get xs i = (if i < length xs then xs ! i else None)"

definition js_set :: "'a option list \<Rightarrow> nat \<Rightarrow> 'a option \<Rightarrow> 'a option list" where
  "js_set xs i v =
     (if i < length xs then xs[i := v]
      else xs @ replicate (i - length xs) None @ [v])"

text \<open>
  \<open>mapFormDataToComponents\<close>: the \<open>forEach\<close> over \<open>currentComponents\<close> with its index,
  pushing onto \<open>components\<close>. Destructuring \<open>{ component }\<close> from an undefined slot raises
  a TypeError, and so does \<open>Object.keys(props)\<close> when \<open>formData[index]\<close> is undefined
  (index beyond the form data).
\<close>

fun mapFormDataToComponents_loop ::
  "ComponentProp list \<Rightarrow> PageComponentData option list \<Rightarrow> nat \<Rightarrow> PageComponentData list
     \<Rightarrow> js_error + PageComponentData list" where
  "mapFormDataToComponents_loop formData [] index acc = Inr acc"
| "mapFormDataToComponents_loop formData (None # rest) index acc = Inl TypeError"
| "mapFormDataToComponents_loop formData (Some cur # rest) index acc =
     (if index < length formData
      then (let props = formData ! index
            in mapFormDataToComponents_loop formData rest (index + 1)
                 (acc @ [\<lparr>component = component cur,
                          props = (if length (Object_keys props) = 0 then None
                                   else Some props)\<rparr>]))
      else Inl TypeError)"

definition mapFormDataToComponents ::
  "ComponentProp list \<Rightarrow> PageComponentData option list \<Rightarrow> js_error + PageComponentData list"
  where
  "mapFormDataToComponents formData currentComponents =
     mapFormDataToComponents_loop formData currentComponents 0 []"

text \<open>
  The state of the hook. \<open>componentsRef\<close> is the array that \<open>componentsRef.current\<close> refers
  to, and \<open>formValues\<close> the values of the field array \<open>components\<close> of the form. The hook
  body binds the local \<open>components\<close> to \<open>componentsRef.current\<close> each time it runs, that is
  at every render, and \<open>handleChangeOrder\<close> works on that array, while the two other
  handlers read \<open>componentsRef.current\<close> when they are called. \<open>componentsAtRender\<close> says
  which array the local \<open>components\<close> of the handlers in use denotes: \<open>Current\<close>, the very
  array of \<open>componentsRef.current\<close> (a write under one name is seen under the other), or
  \<open>Stale\<close>, the array that \<open>handleRemoveComponent\<close> has since replaced in
  \<open>componentsRef.current\<close>, with its contents. A render makes it current again.
\<close>

datatype render_binding = Current | Stale "PageComponentData option list"

record EditorState =
  componentsRef :: "PageComponentData option list"
  componentsAtRender :: render_binding
  formValues :: "ComponentProp list"

definition componentsOf :: "EditorState \<Rightarrow> PageComponentData option list" where
  "componentsOf s =
     (case componentsAtRender s of Current \<Rightarrow> componentsRef s | Stale xs \<Rightarrow> xs)"

definition writeComponents :: "PageComponentData option list \<Rightarrow> EditorState \<Rightarrow> EditorState"
  where
  "writeComponents xs s =
     (case componentsAtRender s of
        Current \<Rightarrow> s\<lparr>componentsRef := xs\<rparr>
      | Stale _ \<Rightarrow> s\<lparr>componentsAtRender := Stale xs\<rparr>)"


text \<open>
  Modelled from the spec: the field array belongs to the form library (\<open>useFieldArray\<close> of
  react-hook-form), an external collaborator whose code is not part of this repository.
  \<open>swap\<close> exchanges the entries at two indices, \<open>remove\<close> drops the entry at an index (and
  nothing when the index has no entry), \<open>append\<close> adds an entry at the end. For \<open>swap\<close> the
  spec speaks of indices of existing entries only; at other indices the model leaves the
  list as it is, and no result below depends on that choice.
\<close>

definition fieldArray_swap :: "nat \<Rightarrow> nat \<Rightarrow> 'a list \<Rightarrow> 'a list" where
  "fieldArray_swap i j xs =
     (if i < length xs \<and> j < length xs then xs[i := xs ! j, j := xs ! i] else xs)"




datatype direction = Prev | Next

text \<open>
  \<open>handleChangeOrder\<close>, on the array bound to \<open>components\<close> (written \<open>comps\<close> below). Only
  \<open>newPos\<close> is tested against the bounds; \<open>pos\<close> is used as it comes. The position is an
  array index, a natural number; \<open>newPos\<close> is an integer, since \<open>pos - 1\<close> is \<open>-1\<close> at
  position 0.
\<close>

definition handleChangeOrder :: "direction \<Rightarrow> nat \<Rightarrow> EditorState \<Rightarrow> EditorState" where
  "handleChangeOrder dir pos s =
     (let comps = componentsOf s;
          newPos = (if dir = Prev then int pos - 1 else int pos + 1)
      in if newPos < 0 \<or> newPos \<ge> int (length comps) then s
         else (let prevComp = js_get comps (nat newPos);
                   comps1 = js_set comps (nat newPos) (js_get comps pos);
                   comps2 = js_set comps1 pos prevComp
               in (writeComponents comps2 s)
                    \<lparr>formValues := fieldArray_swap pos (nat newPos) (formValues s)\<rparr>))"




text \<open>
  \<open>saveProps\<close>. The request is the call of \<open>fetch\<close> on \<open>/live/api/editor\<close> with its three
  options (the HTTP verb, the redirect mode and the body), the body kept structured as the
  object given to \<open>JSON.stringify\<close>. The transport is an argument: for a request it says whether the promise of \<open>fetch\<close> is
  fulfilled with a response or rejected. The result is the state, the effects performed
  in order, and the settlement of the promise that \<open>saveProps\<close> returns.
\<close>

record EditorRequest =
  url :: string
  httpMethod :: string
  redirect :: string
  bodyComponents :: "PageComponentData list"
  bodyTemplate :: string

record Response =
  status :: nat
  body :: string

datatype editor_effect = Fetch EditorRequest | Reload

definition editorRequest :: "string \<Rightarrow> PageComponentData list \<Rightarrow> EditorRequest" where
  "editorRequest template comps =
     \<lparr>url = ''/live/api/editor'', httpMethod = ''POST'', redirect = ''manual'',
      bodyComponents = comps, bodyTemplate = template\<rparr>"

definition saveProps ::
  "string \<Rightarrow> (EditorRequest \<Rightarrow> js_error + Response) \<Rightarrow> EditorState
     \<Rightarrow> EditorState \<times> editor_effect list \<times> (js_error + unit)" where
  "saveProps template fetch s =
     (case mapFormDataToComponents (formValues s) (componentsRef s) of
        Inl e \<Rightarrow> (s, [], Inl e)
      | Inr comps \<Rightarrow>
          (let request = editorRequest template comps
           in case fetch request of
                Inl e \<Rightarrow> (s, [Fetch request], Inl e)
              | Inr response \<Rightarrow> (s, [Fetch request, Reload], Inr ())))"

text \<open>
  Notions used to state the properties of the bridge: the adjacent target index of a
  position, the exchange of two entries of a list, the invariant that the reference and
  the form values have the same length, and the list that the round trip through the form
  is expected to give (an absent or empty bag comes back absent).
\<close>

definition newPosOf :: "direction \<Rightarrow> nat \<Rightarrow> int" where
  "newPosOf dir pos = (if dir = Prev then int pos - 1 else int pos + 1)"

definition swapAt :: "nat \<Rightarrow> nat \<Rightarrow> 'a list \<Rightarrow> 'a list" where
  "swapAt i j xs = xs[i := xs ! j, j := xs ! i]"

definition aligned :: "EditorState \<Rightarrow> bool" where
  "aligned s = (length (componentsRef s) = length (formValues s))"

definition emptyBagToUndefined :: "PageComponentData \<Rightarrow> PageComponentData" where
  "emptyBagToUndefined c =
     (if props c = None \<or> props c = Some [] then c\<lparr>props := None\<rparr> else c)"

text \<open>The state of the end-to-end scenario: a Hero with a title, and a Footer.\<close>

definition heroFooterState :: EditorState where
  "heroFooterState =
     \<lparr>componentsRef =
        [Some \<lparr>component = ''Hero'', props = Some [(''title'', JStr ''Hi'')]\<rparr>,
         Some \<lparr>component = ''Footer'', props = None\<rparr>],
      componentsAtRender = Current,
      formValues = [[(''title'', JStr ''Hi'')], []]\<rparr>"


definition oneState :: EditorState where
  "oneState =
     \<lparr>componentsRef = [Some \<lparr>component = ''A'', props = None\<rparr>],
      componentsAtRender = Current,
      formValues = [[]]\<rparr>"

section \<open>The manifest differ\<close>

lemma arraysEqual_loop_iff:
  "arraysEqual_loop a b i = (\<forall>j. i \<le> j \<and> j < length a \<longrightarrow> a ! j = b ! j)"
proof (induction a b i rule: arraysEqual_loop.induct)
  case (1 a b i)
  show ?case
  proof (cases "i < length a")
    case False
    then show ?thesis by (subst arraysEqual_loop.simps) auto
  next
    case True
    show ?thesis
    proof (cases "a ! i = b ! i")
      case False
      with True show ?thesis by (subst arraysEqual_loop.simps) auto
    next
      case eq: True
      have "arraysEqual_loop a b i = arraysEqual_loop a b (i + 1)"
        using True eq by (subst arraysEqual_loop.simps) simp
      also have "\<dots> = (\<forall>j. i + 1 \<le> j \<and> j < length a \<longrightarrow> a ! j = b ! j)"
        using 1 True eq by simp
      also have "\<dots> = (\<forall>j. i \<le> j \<and> j < length a \<longrightarrow> a ! j = b ! j)"
      proof
        assume h: "\<forall>j. i + 1 \<le> j \<and> j < length a \<longrightarrow> a ! j = b ! j"
        show "\<forall>j. i \<le> j \<and> j < length a \<longrightarrow> a ! j = b ! j"
        proof (intro allI impI)
          fix j assume j: "i \<le> j \<and> j < length a"
          show "a ! j = b ! j"
          proof (cases "j = i")
            case True
            with eq show ?thesis by simp
          next
            case False
            with j have "i + 1 \<le> j \<and> j < length a" by arith
            with h show ?thesis by blast
          qed
        qed
      next
        assume "\<forall>j. i \<le> j \<and> j < length a \<longrightarrow> a ! j = b ! j"
        then show "\<forall>j. i + 1 \<le> j \<and> j < length a \<longrightarrow> a ! j = b ! j" by simp
      qed
      finally show ?thesis .
    qed
  qed
qed

lemma arraysEqual_iff: "arraysEqual a b = (a = b)"
proof (cases "length a = length b")
  case True
  then show ?thesis
    by (simp add: arraysEqual_def arraysEqual_loop_iff list_eq_iff_nth_eq)
next
  case False
  then show ?thesis by (auto simp: arraysEqual_def)
qed

text \<open>
  C1. The differ reports a change exactly when the routes lists, the islands lists or the
  components lists of the two manifests are different lists, two lists being equal for
  \<open>arraysEqual\<close> when they have the same length and the same string at every index;
  replacing the schemas of either manifest never changes
  its answer; and among the effects of \<open>dev\<close> the generator call occurs once, on the new
  manifest, when the differ reports a change, and not at all otherwise.
\<close>

theorem manifestChanged_iff_lists_differ:
  "manifestChanged newManifest currentManifest =
     (routes newManifest \<noteq> routes currentManifest \<or>
      islands newManifest \<noteq> islands currentManifest \<or>
      components newManifest \<noteq> components currentManifest)
   \<and> arraysEqual a b = (length a = length b \<and> (\<forall>i. i < length a \<longrightarrow> a ! i = b ! i))
   \<and> manifestChanged (newManifest\<lparr>schemas := s1\<rparr>) (currentManifest\<lparr>schemas := s2\<rparr>) =
       manifestChanged newManifest currentManifest
   \<and> filter isGenerate (dev prevManifest collected comps schs onListen entrypoint) =
       (if manifestChanged (collected\<lparr>components := comps, schemas := schs\<rparr>)
             (restoreManifest prevManifest)
        then [Generate (collected\<lparr>components := comps, schemas := schs\<rparr>)] else [])"
proof -
  have "arraysEqual a b = (length a = length b \<and> (\<forall>i. i < length a \<longrightarrow> a ! i = b ! i))"
    unfolding arraysEqual_iff by (rule list_eq_iff_nth_eq)
  then show ?thesis
    by (simp add: manifestChanged_def arraysEqual_iff dev_def Let_def)
qed

theorem manifestChanged_iff_lists_differ_witness:
  "\<not> manifestChanged
       \<lparr>routes = [''/x''], islands = [], components = [],
        schemas = [\<lparr>SchemaMap.component = ''A'', schema = JNull\<rparr>]\<rparr>
       \<lparr>routes = [''/x''], islands = [], components = [], schemas = []\<rparr>
   \<and> filter isGenerate
         (dev (Some \<lparr>routes = [''/x''], islands = [], components = [], schemas = []\<rparr>)
            \<lparr>routes = [''/x''], islands = [], components = [''/old''], schemas = []\<rparr>
            [] [\<lparr>SchemaMap.component = ''A'', schema = JNull\<rparr>] True ''main.ts'') = []
   \<and> filter isGenerate
         (dev None
            \<lparr>routes = [''/x''], islands = [], components = [], schemas = []\<rparr>
            [] [] True ''main.ts'') =
       [Generate \<lparr>routes = [''/x''], islands = [], components = [], schemas = []\<rparr>]"
  using manifestChanged_iff_lists_differ
          [of "\<lparr>routes = [''/x''], islands = [], components = [],
                schemas = [\<lparr>SchemaMap.component = ''A'', schema = JNull\<rparr>]\<rparr>"
              "\<lparr>routes = [''/x''], islands = [], components = [], schemas = []\<rparr>"
              "[]" "[]" "[]" "[]"
              "Some \<lparr>routes = [''/x''], islands = [], components = [], schemas = []\<rparr>"
              "\<lparr>routes = [''/x''], islands = [], components = [''/old''], schemas = []\<rparr>"
              "[]" "[\<lparr>SchemaMap.component = ''A'', schema = JNull\<rparr>]" True "''main.ts''"]
        manifestChanged_iff_lists_differ
          [of "\<lparr>routes = [''/x''], islands = [], components = [], schemas = []\<rparr>"
              "\<lparr>routes = [], islands = [], components = [], schemas = []\<rparr>"
              "[]" "[]" "[]" "[]"
              None
              "\<lparr>routes = [''/x''], islands = [], components = [], schemas = []\<rparr>"
              "[]" "[]" True "''main.ts''"]
  by (simp add: restoreManifest_def)

section \<open>The round trip through the form data\<close>

lemma bag_roundtrip:
  "mapFormDataToComponents_loop fd rest idx
     (acc @ [\<lparr>component = component c,
       props = (if length (Object_keys (case props c of None \<Rightarrow> [] | Some p \<Rightarrow> p)) = 0
                then None
                else Some (case props c of None \<Rightarrow> [] | Some p \<Rightarrow> p))\<rparr>])
   = mapFormDataToComponents_loop fd rest idx (acc @ [emptyBagToUndefined c])"
proof -
  have "\<lparr>component = component c,
       props = (if length (Object_keys (case props c of None \<Rightarrow> [] | Some p \<Rightarrow> p)) = 0
                then None
                else Some (case props c of None \<Rightarrow> [] | Some p \<Rightarrow> p))\<rparr>
        = emptyBagToUndefined c"
    by (cases c) (auto simp: emptyBagToUndefined_def Object_keys_def split: option.splits)
  then show ?thesis by (rule arg_cong)
qed

lemma mapFormDataToComponents_loop_roundtrip:
  "mapFormDataToComponents_loop (pre @ mapComponentsToFormData cs) (map Some cs) (length pre) acc
     = Inr (acc @ map emptyBagToUndefined cs)"
proof (induction cs arbitrary: pre acc)
  case Nil
  then show ?case by simp
next
  case (Cons c cs)
  let ?bag = "case props c of None \<Rightarrow> [] | Some p \<Rightarrow> p"
  let ?fd = "(pre @ [?bag]) @ mapComponentsToFormData cs"
  have fd: "pre @ mapComponentsToFormData (c # cs) = ?fd"
    by (simp add: mapComponentsToFormData_def)
  have nth: "?fd ! length pre = ?bag"
    by (simp add: nth_append)
  have lt: "length pre < length ?fd" by simp
  have "mapFormDataToComponents_loop ?fd (Some c # map Some cs) (length pre) acc
        = mapFormDataToComponents_loop ?fd (map Some cs) (length pre + 1)
            (acc @ [\<lparr>component = component c,
                      props = (if length (Object_keys ?bag) = 0 then None else Some ?bag)\<rparr>])"
    by (simp only: mapFormDataToComponents_loop.simps lt if_True Let_def nth)
  also have "\<dots> = mapFormDataToComponents_loop ?fd (map Some cs) (length (pre @ [?bag]))
            (acc @ [emptyBagToUndefined c])"
    by (simp only: bag_roundtrip) simp
  also have "\<dots> = Inr ((acc @ [emptyBagToUndefined c]) @ map emptyBagToUndefined cs)"
    by (rule Cons.IH)
  finally show ?case unfolding fd by simp
qed

lemma emptyBagToUndefined_never_empty: "props (emptyBagToUndefined c) \<noteq> Some []"
  by (simp add: emptyBagToUndefined_def)

text \<open>
  C2. For every list of PageComponentData (an array all of whose slots are defined),
  \<open>mapComponentsToFormData\<close> followed by \<open>mapFormDataToComponents\<close> with the same list as
  current components succeeds and returns the original list in which every entry whose bag
  was absent or empty has an absent bag, all other entries unchanged; no entry of the
  result has an empty bag.
\<close>

theorem mapFormDataToComponents_roundtrip:
  "mapFormDataToComponents (mapComponentsToFormData cs) (map Some cs)
     = Inr (map emptyBagToUndefined cs)
   \<and> (\<forall>c \<in> set (map emptyBagToUndefined cs). props c \<noteq> Some [])"
  using mapFormDataToComponents_loop_roundtrip [of "[]" cs "[]"]
  by (simp add: mapFormDataToComponents_def emptyBagToUndefined_never_empty)

theorem mapFormDataToComponents_roundtrip_witness:
  "mapFormDataToComponents
     (mapComponentsToFormData
        [\<lparr>component = ''Hero'', props = Some [(''title'', JStr ''Hi'')]\<rparr>,
         \<lparr>component = ''Footer'', props = None\<rparr>,
         \<lparr>component = ''Empty'', props = Some []\<rparr>])
     [Some \<lparr>component = ''Hero'', props = Some [(''title'', JStr ''Hi'')]\<rparr>,
      Some \<lparr>component = ''Footer'', props = None\<rparr>,
      Some \<lparr>component = ''Empty'', props = Some []\<rparr>]
   = Inr [\<lparr>component = ''Hero'', props = Some [(''title'', JStr ''Hi'')]\<rparr>,
          \<lparr>component = ''Footer'', props = None\<rparr>,
          \<lparr>component = ''Empty'', props = None\<rparr>]"
  using mapFormDataToComponents_roundtrip
          [of "[\<lparr>component = ''Hero'', props = Some [(''title'', JStr ''Hi'')]\<rparr>,
                \<lparr>component = ''Footer'', props = None\<rparr>,
                \<lparr>component = ''Empty'', props = Some []\<rparr>]"]
  by (simp add: emptyBagToUndefined_def)

section \<open>The operations of the bridge\<close>

lemma swapAt_length [simp]: "length (swapAt i j xs) = length xs"
  by (simp add: swapAt_def)

lemma swapAt_twice:
  assumes "i < length xs" "j < length xs"
  shows "swapAt i j (swapAt i j xs) = xs"
  using assms by (auto simp: swapAt_def list_eq_iff_nth_eq nth_list_update)


lemma fieldArray_swap_twice: "fieldArray_swap i j (fieldArray_swap i j xs) = xs"
proof (cases "i < length xs \<and> j < length xs")
  case True
  then have "fieldArray_swap i j xs = swapAt i j xs"
    by (simp add: fieldArray_swap_def swapAt_def)
  moreover have "fieldArray_swap i j (swapAt i j xs) = swapAt i j (swapAt i j xs)"
    using True by (simp add: fieldArray_swap_def swapAt_def)
  ultimately show ?thesis using True by (simp add: swapAt_twice)
next
  case False
  then show ?thesis by (auto simp: fieldArray_swap_def)
qed

lemma js_set_length: "length xs \<le> length (js_set xs i v)"
  by (simp add: js_set_def)

lemma js_swap_in_range:
  assumes "pos < length xs" "np < length xs"
  shows "js_set (js_set xs np (js_get xs pos)) pos (js_get xs np) = swapAt pos np xs"
  using assms
  by (auto simp: js_set_def js_get_def swapAt_def list_eq_iff_nth_eq nth_list_update)

lemma handleChangeOrder_noop:
  assumes "newPosOf dir pos < 0 \<or> newPosOf dir pos \<ge> int (length (componentsOf s))"
  shows "handleChangeOrder dir pos s = s"
  using assms by (simp add: handleChangeOrder_def Let_def newPosOf_def)

lemma handleChangeOrder_step:
  assumes "\<not> (newPosOf dir pos < 0 \<or> newPosOf dir pos \<ge> int (length (componentsOf s)))"
  shows "handleChangeOrder dir pos s =
           (writeComponents
              (js_set (js_set (componentsOf s) (nat (newPosOf dir pos))
                         (js_get (componentsOf s) pos))
                 pos (js_get (componentsOf s) (nat (newPosOf dir pos)))) s)
             \<lparr>formValues := fieldArray_swap pos (nat (newPosOf dir pos)) (formValues s)\<rparr>"
  using assms by (simp add: handleChangeOrder_def Let_def newPosOf_def)

lemma handleChangeOrder_swap:
  assumes "0 \<le> newPosOf dir pos" "newPosOf dir pos < int (length (componentsRef s))"
    and "pos < length (componentsRef s)" "aligned s" "componentsAtRender s = Current"
  shows "handleChangeOrder dir pos s =
           s\<lparr>componentsRef := swapAt pos (nat (newPosOf dir pos)) (componentsRef s),
             formValues := swapAt pos (nat (newPosOf dir pos)) (formValues s)\<rparr>"
proof -
  define np where "np = nat (newPosOf dir pos)"
  have cur: "componentsOf s = componentsRef s" using assms(5) by (simp add: componentsOf_def)
  have np: "np < length (componentsRef s)" using assms by (simp add: np_def)
  have refs: "js_set (js_set (componentsRef s) np (js_get (componentsRef s) pos)) pos
                (js_get (componentsRef s) np) = swapAt pos np (componentsRef s)"
    using assms(3) np by (rule js_swap_in_range)
  have forms: "fieldArray_swap pos np (formValues s) = swapAt pos np (formValues s)"
    using np assms(3,4) by (simp add: fieldArray_swap_def swapAt_def aligned_def)
  have guard: "\<not> (newPosOf dir pos < 0 \<or> newPosOf dir pos \<ge> int (length (componentsOf s)))"
    using assms cur by simp
  show ?thesis
    unfolding handleChangeOrder_step [OF guard] cur np_def [symmetric] refs forms
    using assms(5) by (simp add: writeComponents_def)
qed

lemma handleChangeOrder_twice:
  assumes "aligned s" "pos < length (componentsRef s)" "componentsAtRender s = Current"
  shows "handleChangeOrder dir pos (handleChangeOrder dir pos s) = s"
proof (cases "newPosOf dir pos < 0 \<or> newPosOf dir pos \<ge> int (length (componentsRef s))")
  case True
  then have "handleChangeOrder dir pos s = s"
    using assms(3) by (intro handleChangeOrder_noop) (simp add: componentsOf_def)
  then show ?thesis by simp
next
  case False
  define np where "np = nat (newPosOf dir pos)"
  define s' where "s' = s\<lparr>componentsRef := swapAt pos np (componentsRef s),
             formValues := swapAt pos np (formValues s)\<rparr>"
  have np: "np < length (componentsRef s)" using False unfolding np_def by arith
  have 1: "handleChangeOrder dir pos s = s'"
    unfolding s'_def np_def using False assms by (intro handleChangeOrder_swap) auto
  have al': "aligned s'" using assms by (simp add: s'_def aligned_def)
  have len': "length (componentsRef s') = length (componentsRef s)" by (simp add: s'_def)
  have cur': "componentsAtRender s' = Current" using assms(3) by (simp add: s'_def)
  have 2: "handleChangeOrder dir pos s' = s'\<lparr>componentsRef := swapAt pos np (componentsRef s'),
             formValues := swapAt pos np (formValues s')\<rparr>"
    unfolding np_def using False assms al' len' cur' by (intro handleChangeOrder_swap) auto
  have "\<dots> = s"
    using np assms by (simp add: s'_def swapAt_twice aligned_def)
  with 1 2 show ?thesis by simp
qed

lemma handleChangeOrder_stale:
  assumes "componentsAtRender s = Stale xs"
  shows "componentsRef (handleChangeOrder dir pos s) = componentsRef s
       \<and> (\<exists>ys. componentsAtRender (handleChangeOrder dir pos s) = Stale ys
                \<and> length xs \<le> length ys)
       \<and> formValues (handleChangeOrder dir pos s)
           = (if newPosOf dir pos < 0 \<or> newPosOf dir pos \<ge> int (length xs)
              then formValues s
              else fieldArray_swap pos (nat (newPosOf dir pos)) (formValues s))"
proof (cases "newPosOf dir pos < 0 \<or> newPosOf dir pos \<ge> int (length xs)")
  case True
  then have "handleChangeOrder dir pos s = s"
    using assms by (intro handleChangeOrder_noop) (simp add: componentsOf_def)
  with True assms show ?thesis by simp
next
  case False
  have of: "componentsOf s = xs" using assms by (simp add: componentsOf_def)
  have guard: "\<not> (newPosOf dir pos < 0 \<or> newPosOf dir pos \<ge> int (length (componentsOf s)))"
    using False of by simp
  let ?ys = "js_set (js_set xs (nat (newPosOf dir pos)) (js_get xs pos))
               pos (js_get xs (nat (newPosOf dir pos)))"
  have len: "length xs \<le> length ?ys"
    using js_set_length [of xs "nat (newPosOf dir pos)" "js_get xs pos"]
          js_set_length [of "js_set xs (nat (newPosOf dir pos)) (js_get xs pos)" pos
                            "js_get xs (nat (newPosOf dir pos))"]
    by linarith
  have st: "handleChangeOrder dir pos s =
              s\<lparr>componentsAtRender := Stale ?ys,
                formValues := fieldArray_swap pos (nat (newPosOf dir pos)) (formValues s)\<rparr>"
    unfolding handleChangeOrder_step [OF guard] of
    using assms by (simp add: writeComponents_def)
  show ?thesis using False len by (simp add: st)
qed

lemma handleChangeOrder_stale_twice:
  assumes "componentsAtRender s = Stale xs"
  shows "componentsRef (handleChangeOrder dir pos (handleChangeOrder dir pos s)) = componentsRef s
       \<and> formValues (handleChangeOrder dir pos (handleChangeOrder dir pos s)) = formValues s"
proof -
  let ?s1 = "handleChangeOrder dir pos s"
  from handleChangeOrder_stale [OF assms, of dir pos] obtain ys where
    r1: "componentsRef ?s1 = componentsRef s"
    and b1: "componentsAtRender ?s1 = Stale ys" and len: "length xs \<le> length ys"
    and f1: "formValues ?s1
           = (if newPosOf dir pos < 0 \<or> newPosOf dir pos \<ge> int (length xs)
              then formValues s
              else fieldArray_swap pos (nat (newPosOf dir pos)) (formValues s))"
    by blast
  from handleChangeOrder_stale [OF b1, of dir pos] have
    r2: "componentsRef (handleChangeOrder dir pos ?s1) = componentsRef ?s1"
    and f2: "formValues (handleChangeOrder dir pos ?s1)
           = (if newPosOf dir pos < 0 \<or> newPosOf dir pos \<ge> int (length ys)
              then formValues ?s1
              else fieldArray_swap pos (nat (newPosOf dir pos)) (formValues ?s1))"
    by blast+
  show ?thesis
  proof (cases "newPosOf dir pos < 0 \<or> newPosOf dir pos \<ge> int (length xs)")
    case True
    then have "?s1 = s" using assms by (intro handleChangeOrder_noop) (simp add: componentsOf_def)
    then show ?thesis by simp
  next
    case False
    with len have "\<not> (newPosOf dir pos < 0 \<or> newPosOf dir pos \<ge> int (length ys))" by auto
    with f2 f1 False r1 r2 show ?thesis by (simp add: fieldArray_swap_twice)
  qed
qed





text \<open>
  C8, as stated: for every position whose adjacent target index is within the bounds of
  the list, Reorder applied twice restores both lists. This fails at the position just
  past the last entry with direction prev: the target is the last entry, the guard lets
  the call through, and the write at the position extends the reference list by a slot.
\<close>

theorem handleChangeOrder_twice_counterexample:
  "0 \<le> newPosOf Prev 1
   \<and> newPosOf Prev 1 < int (length (componentsRef oneState))
   \<and> componentsRef oneState = [Some \<lparr>component = ''A'', props = None\<rparr>]
   \<and> componentsRef (handleChangeOrder Prev 1 (handleChangeOrder Prev 1 oneState))
       = [Some \<lparr>component = ''A'', props = None\<rparr>, None]
   \<and> handleChangeOrder Prev 1 (handleChangeOrder Prev 1 oneState) \<noteq> oneState"
proof -
  have c: "componentsRef (handleChangeOrder Prev 1 (handleChangeOrder Prev 1 oneState))
       = [Some \<lparr>component = ''A'', props = None\<rparr>, None]"
    by (simp add: oneState_def newPosOf_def handleChangeOrder_def Let_def js_get_def js_set_def
        fieldArray_swap_def componentsOf_def writeComponents_def)
  have o: "componentsRef oneState = [Some \<lparr>component = ''A'', props = None\<rparr>]"
    by (simp add: oneState_def)
  have "handleChangeOrder Prev 1 (handleChangeOrder Prev 1 oneState) \<noteq> oneState"
  proof
    assume "handleChangeOrder Prev 1 (handleChangeOrder Prev 1 oneState) = oneState"
    then have "componentsRef (handleChangeOrder Prev 1 (handleChangeOrder Prev 1 oneState))
                 = componentsRef oneState" by simp
    with c o show False by simp
  qed
  with c o show ?thesis by (simp add: newPosOf_def)
qed

text \<open>
  C8, amended. In a state whose two lists have the same length, for every position of an
  existing entry whose adjacent target index is within the bounds of the list, applying
  Reorder a second time with the same arguments restores the reference list and the
  form-values list; and when Reorder is called from the latest render, it exchanges the
  entries at the position and at the target in both lists and the second call restores
  the whole state.
\<close>

theorem handleChangeOrder_twice_restores:
  assumes "0 \<le> newPosOf dir pos" "newPosOf dir pos < int (length (componentsRef s))"
    and "pos < length (componentsRef s)" and "aligned s"
  shows "componentsRef (handleChangeOrder dir pos (handleChangeOrder dir pos s)) = componentsRef s
         \<and> formValues (handleChangeOrder dir pos (handleChangeOrder dir pos s)) = formValues s
         \<and> (componentsAtRender s = Current \<longrightarrow>
              handleChangeOrder dir pos (handleChangeOrder dir pos s) = s
              \<and> handleChangeOrder dir pos s =
                  s\<lparr>componentsRef := swapAt pos (nat (newPosOf dir pos)) (componentsRef s),
                    formValues := swapAt pos (nat (newPosOf dir pos)) (formValues s)\<rparr>)"
proof (cases "componentsAtRender s")
  case Current
  with assms handleChangeOrder_twice [of s pos dir] handleChangeOrder_swap [of dir pos s]
  show ?thesis by simp
next
  case (Stale xs)
  with handleChangeOrder_stale_twice [of s xs dir pos] show ?thesis by simp
qed

theorem handleChangeOrder_twice_restores_witness:
  "0 \<le> newPosOf Next 0 \<and> newPosOf Next 0 < int (length (componentsRef heroFooterState))
   \<and> 0 < length (componentsRef heroFooterState) \<and> aligned heroFooterState
   \<and> handleChangeOrder Next 0 (handleChangeOrder Next 0 heroFooterState) = heroFooterState
   \<and> componentsRef (handleChangeOrder Next 0 heroFooterState) =
        [Some \<lparr>component = ''Footer'', props = None\<rparr>,
         Some \<lparr>component = ''Hero'', props = Some [(''title'', JStr ''Hi'')]\<rparr>]"
proof -
  have h1: "0 \<le> newPosOf Next 0" by (simp add: newPosOf_def)
  have h2: "newPosOf Next 0 < int (length (componentsRef heroFooterState))"
    by (simp add: newPosOf_def heroFooterState_def)
  have h3: "0 < length (componentsRef heroFooterState)" by (simp add: heroFooterState_def)
  have h4: "aligned heroFooterState" by (simp add: aligned_def heroFooterState_def)
  have h5: "componentsAtRender heroFooterState = Current" by (simp add: heroFooterState_def)
  note t = handleChangeOrder_twice_restores [OF h1 h2 h3 h4]
  from t h5 have t1: "handleChangeOrder Next 0 (handleChangeOrder Next 0 heroFooterState)
                        = heroFooterState"
    and t2: "handleChangeOrder Next 0 heroFooterState =
               heroFooterState\<lparr>componentsRef :=
                   swapAt 0 (nat (newPosOf Next 0)) (componentsRef heroFooterState),
                 formValues := swapAt 0 (nat (newPosOf Next 0)) (formValues heroFooterState)\<rparr>"
    by blast+
  have c: "componentsRef (handleChangeOrder Next 0 heroFooterState) =
        [Some \<lparr>component = ''Footer'', props = None\<rparr>,
         Some \<lparr>component = ''Hero'', props = Some [(''title'', JStr ''Hi'')]\<rparr>]"
    by (subst t2) (simp add: heroFooterState_def swapAt_def newPosOf_def)
  show ?thesis using h1 h2 h3 h4 t1 c by blast
qed



section \<open>Saving\<close>

text \<open>
  C4, as stated: once the POST is issued the page is reloaded however the fetch settles,
  also when it rejects. With a fetch that rejects, \<open>saveProps\<close> performs the fetch and
  nothing else: the rejection leaves the function at the \<open>await\<close>, before \<open>reloadPage\<close>.
\<close>

theorem saveProps_rejected_fetch_counterexample:
  "saveProps ''t'' (\<lambda>request. Inl NetworkError) heroFooterState
     = (heroFooterState,
        [Fetch \<lparr>url = ''/live/api/editor'', httpMethod = ''POST'', redirect = ''manual'',
                bodyComponents =
                  [\<lparr>component = ''Hero'', props = Some [(''title'', JStr ''Hi'')]\<rparr>,
                   \<lparr>component = ''Footer'', props = None\<rparr>],
                bodyTemplate = ''t''\<rparr>],
        Inl NetworkError)
   \<and> Reload \<notin> set (fst (snd (saveProps ''t'' (\<lambda>request. Inl NetworkError) heroFooterState)))"
  by (simp add: saveProps_def heroFooterState_def mapFormDataToComponents_def Let_def
      Object_keys_def editorRequest_def)

text \<open>
  C4, amended. When \<open>saveProps\<close> issues its POST (the form data reconcile to a component
  list): if the fetch is fulfilled, with whatever response status and body, the page is
  reloaded right after the fetch and \<open>saveProps\<close> fulfils; if the fetch rejects, the page is
  not reloaded and \<open>saveProps\<close> rejects with the same error.
\<close>

theorem saveProps_reload_iff_fetch_fulfilled:
  assumes "mapFormDataToComponents (formValues s) (componentsRef s) = Inr comps"
  shows "(fetch (editorRequest template comps) = Inr response \<longrightarrow>
            saveProps template fetch s = (s, [Fetch (editorRequest template comps), Reload], Inr ()))
       \<and> (fetch (editorRequest template comps) = Inl e \<longrightarrow>
            saveProps template fetch s = (s, [Fetch (editorRequest template comps)], Inl e))"
  using assms by (simp add: saveProps_def editorRequest_def Let_def)

theorem saveProps_reload_iff_fetch_fulfilled_witness:
  "mapFormDataToComponents (formValues heroFooterState) (componentsRef heroFooterState)
     = Inr [\<lparr>component = ''Hero'', props = Some [(''title'', JStr ''Hi'')]\<rparr>,
            \<lparr>component = ''Footer'', props = None\<rparr>]
   \<and> saveProps ''t'' (\<lambda>request. Inr \<lparr>status = 500, body = ''error''\<rparr>) heroFooterState
     = (heroFooterState,
        [Fetch (editorRequest ''t''
                  [\<lparr>component = ''Hero'', props = Some [(''title'', JStr ''Hi'')]\<rparr>,
                   \<lparr>component = ''Footer'', props = None\<rparr>]), Reload], Inr ())
   \<and> saveProps ''t'' (\<lambda>request. Inl NetworkError) heroFooterState
     = (heroFooterState,
        [Fetch (editorRequest ''t''
                  [\<lparr>component = ''Hero'', props = Some [(''title'', JStr ''Hi'')]\<rparr>,
                   \<lparr>component = ''Footer'', props = None\<rparr>])], Inl NetworkError)"
proof -
  have h: "mapFormDataToComponents (formValues heroFooterState) (componentsRef heroFooterState)
     = Inr [\<lparr>component = ''Hero'', props = Some [(''title'', JStr ''Hi'')]\<rparr>,
            \<lparr>component = ''Footer'', props = None\<rparr>]"
    by (simp add: heroFooterState_def mapFormDataToComponents_def Let_def Object_keys_def)
  from saveProps_reload_iff_fetch_fulfilled [OF h, of "\<lambda>request. Inr \<lparr>status = 500, body = ''error''\<rparr>" "''t''" "\<lparr>status = 500, body = ''error''\<rparr>"]
       saveProps_reload_iff_fetch_fulfilled [OF h, of "\<lambda>request. Inl NetworkError" "''t''" _ NetworkError]
       h
  show ?thesis by simp
qed

section \<open>The schema collector\<close>

lemma foldl_push: "foldl (\<lambda>ps x. ps @ [f x]) acc xs = acc @ map f xs"
  by (induction xs arbitrary: acc) simp_all

lemma foldl_push_unless:
  "foldl (\<lambda>ps x. if P x then ps else ps @ [f x]) acc xs = acc @ map f (filter (\<lambda>x. \<not> P x) xs)"
  by (induction xs arbitrary: acc) simp_all

lemma schemaRequests_eq:
  "schemaRequests islandNames componentNames =
     map (\<lambda>n. (n, Islands)) islandNames
     @ map (\<lambda>n. (n, Components)) (filter (\<lambda>n. n \<notin> set islandNames) componentNames)"
  by (simp add: schemaRequests_def Let_def foldl_push foldl_push_unless)

lemma rejections_Nil_iff:
  "rejections settleOrder ps = [] \<longleftrightarrow> (\<forall>p \<in> set ps. \<exists>v. p = Inr v)"
proof
  assume h: "rejections settleOrder ps = []"
  show "\<forall>p \<in> set ps. \<exists>v. p = Inr v"
  proof
    fix p assume "p \<in> set ps"
    then obtain i where i: "i < length ps" "ps ! i = p" by (auto simp: in_set_conv_nth)
    have "i \<in> set (settleOrder @ [0..<length ps])" using i by simp
    with h i show "\<exists>v. p = Inr v"
      by (cases p) (auto simp: rejections_def map_filter_def filter_empty_conv split: if_splits sum.splits)
  qed
next
  assume a: "\<forall>p \<in> set ps. \<exists>v. p = Inr v"
  have "\<And>i e. i < length ps \<Longrightarrow> ps ! i \<noteq> Inl e"
  proof
    fix i e assume "i < length ps" "ps ! i = Inl e"
    then have "Inl e \<in> set ps" by (metis nth_mem)
    with a show False by auto
  qed
  then show "rejections settleOrder ps = []"
    by (auto simp: rejections_def map_filter_def filter_empty_conv split: sum.splits)
qed

lemma rejections_set:
  "e \<in> set (rejections settleOrder ps) \<Longrightarrow> Inl e \<in> set ps"
  by (auto simp: rejections_def map_filter_def split: if_splits sum.splits) (metis nth_mem)+

lemma values_all_fulfilled:
  "List.map_filter (\<lambda>p. case p of Inl _ \<Rightarrow> None | Inr v \<Rightarrow> Some v) (map Inr vs) = vs"
  by (induction vs) (simp_all add: map_filter_simps)

lemma Promise_all_fulfilled:
  "Promise_all settleOrder (map Inr vs) = Inr vs"
proof -
  have "rejections settleOrder (map Inr vs) = []"
    by (simp add: rejections_Nil_iff) 
  then show ?thesis by (simp add: Promise_all_def values_all_fulfilled)
qed

lemma Promise_all_rejected:
  assumes "Promise_all settleOrder ps = Inl e"
  shows "Inl e \<in> set ps"
proof -
  from assms obtain es where "rejections settleOrder ps = e # es"
    by (auto simp: Promise_all_def split: list.splits)
  then have "e \<in> set (rejections settleOrder ps)" by simp
  then show ?thesis by (rule rejections_set)
qed

lemma all_fulfilled_map:
  fixes ps :: "(js_error + 'a) list"
  assumes "\<forall>p \<in> set ps. \<exists>v. p = Inr v"
  shows "\<exists>vs :: 'a list. ps = map Inr vs"
  using assms
proof (induction ps)
  case Nil
  then show ?case by simp
next
  case (Cons p ps)
  from Cons.prems obtain v :: 'a where v: "p = Inr v" by auto
  from Cons obtain vs :: "'a list" where vs: "ps = map Inr vs" by auto
  have "p # ps = map Inr (v # vs)" using v vs by simp
  then show ?case by (rule exI)
qed

lemma Promise_all_cases:
  fixes ps :: "(js_error + 'a) list"
  shows "(\<exists>vs. ps = map Inr vs \<and> Promise_all settleOrder ps = Inr vs)
   \<or> (\<exists>e. Promise_all settleOrder ps = Inl e \<and> Inl e \<in> set ps)"
proof (cases "rejections settleOrder ps")
  case Nil
  then have "\<forall>p \<in> set ps. \<exists>v. p = Inr v" by (simp add: rejections_Nil_iff)
  then obtain vs where "ps = map Inr vs" using all_fulfilled_map by blast
  then show ?thesis using Promise_all_fulfilled by blast
next
  case (Cons e es)
  then have "Promise_all settleOrder ps = Inl e" by (simp add: Promise_all_def)
  then show ?thesis using Promise_all_rejected by blast
qed

lemma map_filter_id_entries:
  "List.map_filter (\<lambda>value. value) (map (\<lambda>r. if P r then Some (f r) else None) rs) = map f (filter P rs)"
  by (induction rs) (simp_all add: map_filter_simps)

lemma collect_loaded:
  assumes "\<forall>r \<in> set (schemaRequests islandNames componentNames).
             importModule (snd r) (fst r) = Inr (modules (snd r) (fst r))"
  shows "collectComponentsSchemas componentNameFromPath importModule settleOrder islandNames componentNames
         = Inr (map (schemaEntry componentNameFromPath modules)
                  (filter (hasSchema modules) (schemaRequests islandNames componentNames)))"
proof -
  let ?rs = "schemaRequests islandNames componentNames"
  have eq: "map (\<lambda>(componentName, type).
               mapComponentToSchemaMap componentNameFromPath importModule componentName type) ?rs
        = map Inr (map (\<lambda>r. if hasSchema modules r
                              then Some (schemaEntry componentNameFromPath modules r) else None) ?rs)"
    using assms
    by (auto simp: mapComponentToSchemaMap_def hasSchema_def schemaEntry_def Let_def)
  show ?thesis
    unfolding collectComponentsSchemas_def Let_def eq
    by (simp only: Promise_all_fulfilled sum.case map_filter_id_entries)
qed

lemma collect_fulfilled_loaded:
  assumes "collectComponentsSchemas componentNameFromPath importModule settleOrder islandNames componentNames = Inr res"
  shows "\<forall>r \<in> set (schemaRequests islandNames componentNames).
             \<exists>m. importModule (snd r) (fst r) = Inr m"
proof (rule ccontr)
  let ?rs = "schemaRequests islandNames componentNames"
  let ?ps = "map (\<lambda>(componentName, type).
               mapComponentToSchemaMap componentNameFromPath importModule componentName type) ?rs"
  assume "\<not> (\<forall>r \<in> set ?rs. \<exists>m. importModule (snd r) (fst r) = Inr m)"
  then obtain r e where r: "r \<in> set ?rs" "importModule (snd r) (fst r) = Inl e"
    by (metis sum.exhaust_sel sumE)
  then have "mapComponentToSchemaMap componentNameFromPath importModule (fst r) (snd r) = Inl e"
    by (simp add: mapComponentToSchemaMap_def)
  with r(1) have "Inl e \<in> set ?ps" by (force simp: image_iff split_beta)
  then have "\<not> (\<exists>vs. ?ps = map Inr vs)"
  proof (intro notI)
    assume i: "Inl e \<in> set ?ps" and "\<exists>vs. ?ps = map Inr vs"
    then obtain vs where "?ps = map Inr vs" by blast
    with i have "Inl e \<in> set (map Inr vs)" by simp
    then show False by auto
  qed
  with Promise_all_cases [of ?ps settleOrder] obtain e' where "Promise_all settleOrder ?ps = Inl e'"
    by blast
  with assms show False by (simp add: collectComponentsSchemas_def Let_def)
qed

lemma collect_rejected:
  assumes "collectComponentsSchemas componentNameFromPath importModule settleOrder islandNames componentNames = Inl e"
  shows "\<exists>r \<in> set (schemaRequests islandNames componentNames). importModule (snd r) (fst r) = Inl e"
proof -
  let ?rs = "schemaRequests islandNames componentNames"
  let ?ps = "map (\<lambda>(componentName, type).
               mapComponentToSchemaMap componentNameFromPath importModule componentName type) ?rs"
  from assms have "Promise_all settleOrder ?ps = Inl e"
    by (simp add: collectComponentsSchemas_def Let_def split: sum.splits)
  then have "Inl e \<in> set ?ps" by (rule Promise_all_rejected)
  then obtain r where "r \<in> set ?rs" "mapComponentToSchemaMap componentNameFromPath importModule (fst r) (snd r) = Inl e"
    by (auto simp: split_beta)
  then show ?thesis
    by (auto simp: mapComponentToSchemaMap_def Let_def split: sum.splits if_splits)
qed

lemma filter_eq_distinct:
  "distinct xs \<Longrightarrow> n \<in> set xs \<Longrightarrow> filter (\<lambda>m. m = n) xs = [n]"
proof (induction xs)
  case Nil
  then show ?case by simp
next
  case (Cons x xs)
  show ?case
  proof (cases "x = n")
    case True
    with Cons.prems have "n \<notin> set xs" by simp
    then have "filter (\<lambda>m. m = n) xs = []" by (auto simp: filter_empty_conv)
    with True show ?thesis by simp
  next
    case False
    with Cons show ?thesis by simp
  qed
qed

lemma requests_of_island:
  assumes "n \<in> set islandNames"
  shows "(n, Components) \<notin> set (schemaRequests islandNames componentNames)"
  using assms by (auto simp: schemaRequests_eq)

lemma filter_eq_replicate:
  "filter (\<lambda>m. m = n) xs = replicate (count_list xs n) n"
  by (induction xs) auto

lemma requests_of_island_count:
  assumes "n \<in> set islandNames"
  shows "filter (\<lambda>r. fst r = n) (schemaRequests islandNames componentNames)
           = replicate (count_list islandNames n) (n, Islands)"
proof -
  have 1: "filter (\<lambda>r. fst r = n) (map (\<lambda>n. (n, Islands)) islandNames)
           = map (\<lambda>n. (n, Islands)) (filter (\<lambda>m. m = n) islandNames)"
    by (simp add: filter_map comp_def)
  have 2: "filter (\<lambda>r. fst r = n)
             (map (\<lambda>n. (n, Components)) (filter (\<lambda>n. n \<notin> set islandNames) componentNames)) = []"
    using assms by (auto simp: filter_empty_conv)
  show ?thesis
    unfolding schemaRequests_eq filter_append 1 2
    by (simp add: filter_eq_replicate)
qed

lemma requests_of_island_once:
  assumes "n \<in> set islandNames" "distinct islandNames"
  shows "filter (\<lambda>r. fst r = n) (schemaRequests islandNames componentNames) = [(n, Islands)]"
proof -
  have 1: "filter (\<lambda>r. fst r = n) (map (\<lambda>n. (n, Islands)) islandNames)
           = map (\<lambda>n. (n, Islands)) (filter (\<lambda>m. m = n) islandNames)"
    by (simp add: filter_map comp_def)
  have 2: "filter (\<lambda>r. fst r = n)
             (map (\<lambda>n. (n, Components)) (filter (\<lambda>n. n \<notin> set islandNames) componentNames)) = []"
    using assms(1) by (auto simp: filter_empty_conv)
  show ?thesis
    unfolding schemaRequests_eq filter_append 1 2
    using assms by (simp add: filter_eq_distinct)
qed

lemma collect_ignores_component_of_island:
  assumes "n \<in> set islandNames"
  shows "collectComponentsSchemas componentNameFromPath
           (\<lambda>t m. if t = Components \<and> m = n then x else importModule t m)
           settleOrder islandNames componentNames
         = collectComponentsSchemas componentNameFromPath importModule
             settleOrder islandNames componentNames"
proof -
  let ?rs = "schemaRequests islandNames componentNames"
  have "map (\<lambda>(componentName, type).
               mapComponentToSchemaMap componentNameFromPath
                 (\<lambda>t m. if t = Components \<and> m = n then x else importModule t m)
                 componentName type) ?rs
        = map (\<lambda>(componentName, type).
               mapComponentToSchemaMap componentNameFromPath importModule componentName type) ?rs"
  proof (rule map_cong [OF refl])
    fix r assume "r \<in> set ?rs"
    with requests_of_island [OF assms] have "r \<noteq> (n, Components)" by auto
    then show "(case r of (componentName, type) \<Rightarrow>
               mapComponentToSchemaMap componentNameFromPath
                 (\<lambda>t m. if t = Components \<and> m = n then x else importModule t m)
                 componentName type)
            = (case r of (componentName, type) \<Rightarrow>
               mapComponentToSchemaMap componentNameFromPath importModule componentName type)"
      by (cases r) (auto simp: mapComponentToSchemaMap_def)
  qed
  then show ?thesis by (simp only: collectComponentsSchemas_def)
qed

lemma entries_subseq:
  "subseq (map SchemaMap.component
             (map (schemaEntry componentNameFromPath modules)
                (filter (hasSchema modules) (schemaRequests islandNames componentNames))))
     (map componentNameFromPath (islandNames @ componentNames))"
proof -
  let ?rs = "schemaRequests islandNames componentNames"
  have 1: "map SchemaMap.component (map (schemaEntry componentNameFromPath modules)
                (filter (hasSchema modules) ?rs))
           = map componentNameFromPath (map fst (filter (hasSchema modules) ?rs))"
    by (simp add: schemaEntry_def comp_def)
  have 2: "subseq (map fst (filter (hasSchema modules) ?rs)) (map fst ?rs)"
    by (intro subseq_map subseq_filter_left)
  have 3: "map fst ?rs = islandNames @ filter (\<lambda>n. n \<notin> set islandNames) componentNames"
    by (simp add: schemaRequests_eq comp_def)
  have 4: "subseq (islandNames @ filter (\<lambda>n. n \<notin> set islandNames) componentNames)
             (islandNames @ componentNames)"
    by (intro list_emb_append_mono subseq_order.order_refl subseq_filter_left)
  from 2 3 4 have "subseq (map fst (filter (hasSchema modules) ?rs)) (islandNames @ componentNames)"
    using subseq_order.order_trans by metis
  then show ?thesis unfolding 1 by (rule subseq_map)
qed

lemma collect_fulfilled_form:
  assumes "collectComponentsSchemas componentNameFromPath importModule settleOrder
             islandNames componentNames = Inr res"
  shows "\<exists>modules. (\<forall>r \<in> set (schemaRequests islandNames componentNames).
             importModule (snd r) (fst r) = Inr (modules (snd r) (fst r)))"
proof -
  define modules where
    "modules = (\<lambda>t n. case importModule t n of Inr m \<Rightarrow> m | Inl _ \<Rightarrow> [])"
  have "\<forall>r \<in> set (schemaRequests islandNames componentNames).
          importModule (snd r) (fst r) = Inr (modules (snd r) (fst r))"
    using collect_fulfilled_loaded [OF assms] by (auto simp: modules_def)
  then show ?thesis by blast
qed

text \<open>
  C5, as stated: for every islands list, a name present in both input lists contributes at
  most one entry. With a name that occurs twice in the islands list and once in the
  components list, the result has two entries for it: one promise is pushed for each
  element of the islands list.
\<close>

theorem collectComponentsSchemas_duplicate_island_counterexample:
  "collectComponentsSchemas (\<lambda>p. p) (\<lambda>t n. Inr (demoModules t n)) []
       [''/Hero.tsx'', ''/Hero.tsx''] [''/Hero.tsx'']
     = Inr [\<lparr>SchemaMap.component = ''/Hero.tsx'',
             schema = JObj [(''title'', JStr ''string'')]\<rparr>,
            \<lparr>SchemaMap.component = ''/Hero.tsx'',
             schema = JObj [(''title'', JStr ''string'')]\<rparr>]"
  by (simp add: collectComponentsSchemas_def schemaRequests_def Promise_all_def rejections_def
      mapComponentToSchemaMap_def module_schema_def demoModules_def map_filter_simps Let_def)

text \<open>
  C5, amended. When \<open>collectComponentsSchemas\<close> returns a list, the component names of its
  entries follow the enumeration order islands-then-components of the inputs, and the list
  is the same for every order in which the loads settle. The calls are made for the
  islands and then for the components whose name is not an island: a name in both lists is
  never loaded as a component (whatever that load would give, the result is the same); it
  is requested as an island once for each of its occurrences in the islands list, hence
  once, contributing at most one entry, when the islands are distinct. When every
  requested module loads, the result is a list, without error, of the entries of the
  requests whose module has a truthy schema export; a module without schema export has
  none.
\<close>

theorem collectComponentsSchemas_order_and_precedence:
  "(collectComponentsSchemas componentNameFromPath importModule settleOrder
        islandNames componentNames = Inr res \<longrightarrow>
      subseq (map SchemaMap.component res)
        (map componentNameFromPath (islandNames @ componentNames))
      \<and> collectComponentsSchemas componentNameFromPath importModule settleOrder'
            islandNames componentNames = Inr res)
   \<and> map fst (schemaRequests islandNames componentNames)
       = islandNames @ filter (\<lambda>n. n \<notin> set islandNames) componentNames
   \<and> (n \<in> set islandNames \<longrightarrow>
        (n, Components) \<notin> set (schemaRequests islandNames componentNames)
        \<and> collectComponentsSchemas componentNameFromPath
            (\<lambda>t m. if t = Components \<and> m = n then x else importModule t m)
            settleOrder islandNames componentNames
          = collectComponentsSchemas componentNameFromPath importModule
              settleOrder islandNames componentNames
        \<and> filter (\<lambda>r. fst r = n) (schemaRequests islandNames componentNames)
            = replicate (count_list islandNames n) (n, Islands)
        \<and> (distinct islandNames \<longrightarrow>
             filter (\<lambda>r. fst r = n) (schemaRequests islandNames componentNames)
               = [(n, Islands)]))
   \<and> ((\<forall>r \<in> set (schemaRequests islandNames componentNames).
          importModule (snd r) (fst r) = Inr (modules (snd r) (fst r))) \<longrightarrow>
        collectComponentsSchemas componentNameFromPath importModule settleOrder
            islandNames componentNames
          = Inr (map (schemaEntry componentNameFromPath modules)
                   (filter (hasSchema modules) (schemaRequests islandNames componentNames))))
   \<and> (map_of (modules (snd r) (fst r)) ''schema'' = None \<longrightarrow> \<not> hasSchema modules r)"
proof (intro conjI impI)
  assume a: "collectComponentsSchemas componentNameFromPath importModule settleOrder
        islandNames componentNames = Inr res"
  from collect_fulfilled_form [OF a] obtain mods where
    m: "\<forall>r \<in> set (schemaRequests islandNames componentNames).
             importModule (snd r) (fst r) = Inr (mods (snd r) (fst r))" by blast
  have res: "res = map (schemaEntry componentNameFromPath mods)
                   (filter (hasSchema mods) (schemaRequests islandNames componentNames))"
    using collect_loaded [OF m, of componentNameFromPath settleOrder] a by simp
  show "subseq (map SchemaMap.component res)
        (map componentNameFromPath (islandNames @ componentNames))"
    unfolding res by (rule entries_subseq)
  show "collectComponentsSchemas componentNameFromPath importModule settleOrder'
            islandNames componentNames = Inr res"
    unfolding res by (rule collect_loaded [OF m])
next
  show "map fst (schemaRequests islandNames componentNames)
       = islandNames @ filter (\<lambda>n. n \<notin> set islandNames) componentNames"
    by (simp add: schemaRequests_eq comp_def)
next
  assume "n \<in> set islandNames"
  then show "(n, Components) \<notin> set (schemaRequests islandNames componentNames)"
    by (rule requests_of_island)
next
  assume "n \<in> set islandNames"
  then show "collectComponentsSchemas componentNameFromPath
            (\<lambda>t m. if t = Components \<and> m = n then x else importModule t m)
            settleOrder islandNames componentNames
          = collectComponentsSchemas componentNameFromPath importModule
              settleOrder islandNames componentNames"
    by (rule collect_ignores_component_of_island)
next
  assume "n \<in> set islandNames"
  then show "filter (\<lambda>r. fst r = n) (schemaRequests islandNames componentNames)
            = replicate (count_list islandNames n) (n, Islands)"
    by (rule requests_of_island_count)
next
  assume "n \<in> set islandNames" "distinct islandNames"
  then show "filter (\<lambda>r. fst r = n) (schemaRequests islandNames componentNames)
               = [(n, Islands)]"
    by (rule requests_of_island_once)
next
  assume "\<forall>r \<in> set (schemaRequests islandNames componentNames).
          importModule (snd r) (fst r) = Inr (modules (snd r) (fst r))"
  then show "collectComponentsSchemas componentNameFromPath importModule settleOrder
            islandNames componentNames
          = Inr (map (schemaEntry componentNameFromPath modules)
                   (filter (hasSchema modules) (schemaRequests islandNames componentNames)))"
    by (rule collect_loaded)
next
  assume "map_of (modules (snd r) (fst r)) ''schema'' = None"
  then show "\<not> hasSchema modules r"
    by (simp add: hasSchema_def module_schema_def)
qed

lemma map_of_filter_key: "map_of (filter (\<lambda>(k, v). k \<noteq> a) m) a = None"
  by (induction m) auto

lemma dropFalsySchema_absent:
  "(map_of (dropFalsySchema m) ''schema'' = None) = (\<not> truthy (module_schema m))"
  by (auto simp: dropFalsySchema_def map_of_filter_key module_schema_def split: option.splits)

lemma hasSchema_dropFalsySchema:
  "hasSchema (\<lambda>t n. dropFalsySchema (modules t n)) r = hasSchema modules r"
  by (auto simp: hasSchema_def dropFalsySchema_def module_schema_def map_of_filter_key)

lemma schemaEntry_dropFalsySchema:
  "hasSchema modules r \<Longrightarrow>
   schemaEntry componentNameFromPath (\<lambda>t n. dropFalsySchema (modules t n)) r
     = schemaEntry componentNameFromPath modules r"
  by (simp add: hasSchema_def schemaEntry_def dropFalsySchema_def)

text \<open>
  C10. For a loaded module, \<open>mapComponentToSchemaMap\<close> gives an entry exactly when the
  schema export is truthy; when all modules load, the result of
  \<open>collectComponentsSchemas\<close> consists of the entries of the requests with a truthy schema
  export, and it is the same when every falsy schema export is removed from its module.
  \<open>false\<close>, \<open>0\<close>, the empty string, \<open>null\<close> and \<open>undefined\<close> are falsy.
\<close>

theorem schema_entry_iff_truthy:
  "(importModule type componentName = Inr m \<longrightarrow>
      mapComponentToSchemaMap componentNameFromPath importModule componentName type
        = Inr (if truthy (module_schema m)
               then Some \<lparr>SchemaMap.component = componentNameFromPath componentName,
                          schema = module_schema m\<rparr>
               else None))
   \<and> collectComponentsSchemas componentNameFromPath (\<lambda>t n. Inr (modules t n)) settleOrder
         islandNames componentNames
       = Inr (map (schemaEntry componentNameFromPath modules)
                (filter (hasSchema modules) (schemaRequests islandNames componentNames)))
   \<and> collectComponentsSchemas componentNameFromPath
         (\<lambda>t n. Inr (dropFalsySchema (modules t n))) settleOrder islandNames componentNames
       = collectComponentsSchemas componentNameFromPath (\<lambda>t n. Inr (modules t n)) settleOrder
           islandNames componentNames
   \<and> (map_of (dropFalsySchema m) ''schema'' = None) = (\<not> truthy (module_schema m))
   \<and> \<not> truthy (JBool False) \<and> \<not> truthy (JNum 0) \<and> \<not> truthy (JStr []) \<and> \<not> truthy JNull
   \<and> \<not> truthy JUndefined"
proof -
  let ?rs = "schemaRequests islandNames componentNames"
  have 1: "collectComponentsSchemas componentNameFromPath (\<lambda>t n. Inr (modules t n)) settleOrder
         islandNames componentNames
       = Inr (map (schemaEntry componentNameFromPath modules) (filter (hasSchema modules) ?rs))"
    by (rule collect_loaded) simp
  have 2: "collectComponentsSchemas componentNameFromPath
         (\<lambda>t n. Inr (dropFalsySchema (modules t n))) settleOrder islandNames componentNames
       = Inr (map (schemaEntry componentNameFromPath (\<lambda>t n. dropFalsySchema (modules t n)))
                (filter (hasSchema (\<lambda>t n. dropFalsySchema (modules t n))) ?rs))"
    by (rule collect_loaded) simp
  have 3: "map (schemaEntry componentNameFromPath (\<lambda>t n. dropFalsySchema (modules t n)))
                (filter (hasSchema (\<lambda>t n. dropFalsySchema (modules t n))) ?rs)
           = map (schemaEntry componentNameFromPath modules) (filter (hasSchema modules) ?rs)"
    unfolding hasSchema_dropFalsySchema
    by (rule map_cong [OF refl]) (simp add: schemaEntry_dropFalsySchema)
  have 4: "importModule type componentName = Inr m \<longrightarrow>
      mapComponentToSchemaMap componentNameFromPath importModule componentName type
        = Inr (if truthy (module_schema m)
               then Some \<lparr>SchemaMap.component = componentNameFromPath componentName,
                          schema = module_schema m\<rparr>
               else None)"
    by (simp add: mapComponentToSchemaMap_def Let_def)
  show ?thesis
    using 1 2 3 4 dropFalsySchema_absent [of m] by simp
qed

theorem collectComponentsSchemas_order_and_precedence_witness:
  "collectComponentsSchemas (\<lambda>p. p) demoImport [1, 0] [''/Hero.tsx'']
       [''/Hero.tsx'', ''/Plain.tsx'']
     = Inr [\<lparr>SchemaMap.component = ''/Hero.tsx'',
             schema = JObj [(''title'', JStr ''string'')]\<rparr>]
   \<and> collectComponentsSchemas (\<lambda>p. p) demoImport [] [''/Hero.tsx'']
       [''/Hero.tsx'', ''/Plain.tsx'']
     = Inr [\<lparr>SchemaMap.component = ''/Hero.tsx'',
             schema = JObj [(''title'', JStr ''string'')]\<rparr>]
   \<and> ''/Hero.tsx'' \<in> set [''/Hero.tsx''] \<and> distinct [''/Hero.tsx'']
   \<and> schemaRequests [''/Hero.tsx''] [''/Hero.tsx'', ''/Plain.tsx'']
       = [(''/Hero.tsx'', Islands), (''/Plain.tsx'', Components)]
   \<and> demoImport Islands ''/Hero.tsx'' = Inr (demoModules Islands ''/Hero.tsx'')
   \<and> demoImport Components ''/Plain.tsx'' = Inr (demoModules Components ''/Plain.tsx'')
   \<and> map_of (demoModules Components ''/Plain.tsx'') ''schema'' = None
   \<and> \<not> hasSchema demoModules (''/Plain.tsx'', Components)"
proof -
  have h: "collectComponentsSchemas (\<lambda>p. p) demoImport [1, 0] [''/Hero.tsx'']
       [''/Hero.tsx'', ''/Plain.tsx'']
     = Inr [\<lparr>SchemaMap.component = ''/Hero.tsx'',
             schema = JObj [(''title'', JStr ''string'')]\<rparr>]"
    by (simp add: collectComponentsSchemas_def schemaRequests_def Promise_all_def rejections_def
        mapComponentToSchemaMap_def module_schema_def demoImport_def demoModules_def
        map_filter_simps Let_def)
  have r: "schemaRequests [''/Hero.tsx''] [''/Hero.tsx'', ''/Plain.tsx'']
       = [(''/Hero.tsx'', Islands), (''/Plain.tsx'', Components)]"
    by (simp add: schemaRequests_def)
  have l: "\<forall>r \<in> set (schemaRequests [''/Hero.tsx''] [''/Hero.tsx'', ''/Plain.tsx'']).
         demoImport (snd r) (fst r) = Inr (demoModules (snd r) (fst r))"
    by (simp add: r demoImport_def)
  have m: "map_of (demoModules Components ''/Plain.tsx'') ''schema'' = None"
    by (simp add: demoModules_def)
  from collectComponentsSchemas_order_and_precedence
         [of "\<lambda>p. p" demoImport "[1, 0]" "[''/Hero.tsx'']" "[''/Hero.tsx'', ''/Plain.tsx'']"
             "[\<lparr>SchemaMap.component = ''/Hero.tsx'',
                schema = JObj [(''title'', JStr ''string'')]\<rparr>]"
             "[]" "''/Hero.tsx''" "Inl SyntaxError" demoModules "(''/Plain.tsx'', Components)"]
       h r l m
  show ?thesis by (simp add: demoImport_def)
qed

theorem schema_entry_iff_truthy_witness:
  "demoImport Islands ''/Zero.tsx'' = Inr (demoModules Islands ''/Zero.tsx'')
   \<and> module_schema (demoModules Islands ''/Zero.tsx'') = JNum 0
   \<and> mapComponentToSchemaMap (\<lambda>p. p) demoImport ''/Zero.tsx'' Islands = Inr None
   \<and> mapComponentToSchemaMap (\<lambda>p. p) demoImport ''/Hero.tsx'' Islands
       = Inr (Some \<lparr>SchemaMap.component = ''/Hero.tsx'',
                     schema = JObj [(''title'', JStr ''string'')]\<rparr>)
   \<and> collectComponentsSchemas (\<lambda>p. p) (\<lambda>t n. Inr (demoModules t n)) []
         [''/Zero.tsx'', ''/Hero.tsx''] [''/Plain.tsx'']
       = Inr [\<lparr>SchemaMap.component = ''/Hero.tsx'',
               schema = JObj [(''title'', JStr ''string'')]\<rparr>]"
proof -
  have a: "demoImport Islands ''/Zero.tsx'' = Inr (demoModules Islands ''/Zero.tsx'')"
    and b: "demoImport Islands ''/Hero.tsx'' = Inr (demoModules Islands ''/Hero.tsx'')"
    by (simp_all add: demoImport_def)
  have z: "module_schema (demoModules Islands ''/Zero.tsx'') = JNum 0"
    and hs: "module_schema (demoModules Islands ''/Hero.tsx'') = JObj [(''title'', JStr ''string'')]"
    and p: "module_schema (demoModules Components ''/Plain.tsx'') = JUndefined"
    by (simp_all add: module_schema_def demoModules_def)
  have r: "schemaRequests [''/Zero.tsx'', ''/Hero.tsx''] [''/Plain.tsx'']
       = [(''/Zero.tsx'', Islands), (''/Hero.tsx'', Islands), (''/Plain.tsx'', Components)]"
    by (simp add: schemaRequests_def)
  from schema_entry_iff_truthy
         [of demoImport Islands "''/Zero.tsx''" "demoModules Islands ''/Zero.tsx''" "\<lambda>p. p"
             demoModules "[]" "[''/Zero.tsx'', ''/Hero.tsx'']" "[''/Plain.tsx'']"]
       schema_entry_iff_truthy
         [of demoImport Islands "''/Hero.tsx''" "demoModules Islands ''/Hero.tsx''" "\<lambda>p. p"
             demoModules "[]" "[''/Zero.tsx'', ''/Hero.tsx'']" "[''/Plain.tsx'']"]
       a b z hs p r
  show ?thesis by (simp add: hasSchema_def schemaEntry_def)
qed

section \<open>The component discoverer\<close>

lemma walk_isFile:
  "e \<in> set (fst (walk exts p t)) \<Longrightarrow> isFile e"
  "e \<in> set (fst (walk_entries exts p es)) \<Longrightarrow> isFile e"
  by (induction exts p t and exts p es arbitrary: e and e rule: walk_walk_entries.induct)
     (auto split: prod.splits option.splits if_splits)

lemma walk_hasExt:
  "e \<in> set (fst (walk exts p t)) \<Longrightarrow> hasExt exts (path e)"
  "e \<in> set (fst (walk_entries exts p es)) \<Longrightarrow> hasExt exts (path e)"
  by (induction exts p t and exts p es arbitrary: e and e rule: walk_walk_entries.induct)
     (auto split: prod.splits option.splits if_splits)

lemma walk_below:
  "e \<in> set (fst (walk exts p t)) \<Longrightarrow> \<exists>r. path e = p @ r \<and> below r"
  "e \<in> set (fst (walk_entries exts p es)) \<Longrightarrow>
     \<exists>n r. n \<in> set (map fst es) \<and> path e = p @ ''/'' @ n @ r \<and> below r"
proof (induction exts p t and exts p es arbitrary: e and e rule: walk_walk_entries.induct)
  case (1 exts p)
  then show ?case by (auto simp: below_def split: if_splits)
next
  case (2 exts p e')
  then show ?case by simp
next
  case (3 exts p entries)
  then obtain n r where "path e = p @ ''/'' @ n @ r" by fastforce
  then have "path e = p @ (CHR ''/'' # n @ r) \<and> below (CHR ''/'' # n @ r)"
    by (simp add: below_def)
  then show ?case by blast
next
  case (4 exts p)
  then show ?case by simp
next
  case (5 exts p n t rest)
  from "5.prems" have "e \<in> set (fst (walk exts (p @ ''/'' @ n) t))
      \<or> (snd (walk exts (p @ ''/'' @ n) t) = None \<and> e \<in> set (fst (walk_entries exts p rest)))"
    by (auto split: prod.splits option.splits)
  then show ?case
  proof
    assume "e \<in> set (fst (walk exts (p @ ''/'' @ n) t))"
    from "5.IH"(1) [OF this] obtain r where "path e = (p @ ''/'' @ n) @ r" "below r" by blast
    then have "n \<in> set (map fst ((n, t) # rest)) \<and> path e = p @ ''/'' @ n @ r \<and> below r" by simp
    then show ?thesis by blast
  next
    assume a: "snd (walk exts (p @ ''/'' @ n) t) = None \<and> e \<in> set (fst (walk_entries exts p rest))"
    then obtain ys where ys: "walk exts (p @ ''/'' @ n) t = (ys, None)"
      by (cases "walk exts (p @ ''/'' @ n) t") auto
    from "5.IH"(2) [OF ys [symmetric] refl] a
    obtain m r where "m \<in> set (map fst rest)" "path e = p @ ''/'' @ m @ r" "below r" by blast
    then have "m \<in> set (map fst ((n, t) # rest)) \<and> path e = p @ ''/'' @ m @ r \<and> below r" by simp
    then show ?thesis by blast
  qed
qed

lemma name_of_segment:
  assumes "CHR ''/'' \<notin> set n" "below r"
  shows "takeWhile (\<lambda>c. c \<noteq> CHR ''/'') (n @ r) = n"
proof -
  have "takeWhile (\<lambda>c. c \<noteq> CHR ''/'') r = []"
    using assms(2) by (auto simp: below_def)
  moreover have "\<forall>c \<in> set n. c \<noteq> CHR ''/''" using assms(1) by auto
  ultimately show ?thesis by (simp add: takeWhile_append2)
qed

lemma segments_differ:
  assumes "CHR ''/'' \<notin> set n" "CHR ''/'' \<notin> set m" "below r" "below q" "n \<noteq> m"
  shows "p @ ''/'' @ n @ r \<noteq> p @ ''/'' @ m @ q"
proof
  assume "p @ ''/'' @ n @ r = p @ ''/'' @ m @ q"
  then have "n @ r = m @ q" by simp
  then have "takeWhile (\<lambda>c. c \<noteq> CHR ''/'') (n @ r) = takeWhile (\<lambda>c. c \<noteq> CHR ''/'') (m @ q)"
    by simp
  then have "n = m" using assms by (simp add: name_of_segment)
  with assms(5) show False by simp
qed

lemma wellFormed_entries_names:
  "wellFormed_entries es \<Longrightarrow> m \<in> set (map fst es) \<Longrightarrow> CHR ''/'' \<notin> set m"
  by (induction es) force+

lemma walk_distinct:
  "wellFormed t \<Longrightarrow> distinct (map path (fst (walk exts p t)))"
  "wellFormed_entries es \<Longrightarrow> distinct (map path (fst (walk_entries exts p es)))"
proof (induction exts p t and exts p es rule: walk_walk_entries.induct)
  case (1 exts p)
  then show ?case by simp
next
  case (2 exts p e)
  then show ?case by simp
next
  case (3 exts p entries)
  then show ?case by simp
next
  case (4 exts p)
  then show ?case by simp
next
  case (5 exts p n t rest)
  from "5.prems" have wf: "CHR ''/'' \<notin> set n" "n \<notin> set (map fst rest)" "wellFormed t"
    "wellFormed_entries rest" by simp_all
  obtain ys f where ys: "walk exts (p @ ''/'' @ n) t = (ys, f)"
    by (cases "walk exts (p @ ''/'' @ n) t") auto
  have dys: "distinct (map path ys)" using "5.IH"(1) [OF wf(3)] ys by simp
  show ?case
  proof (cases f)
    case (Some e)
    with ys dys show ?thesis by simp
  next
    case None
    obtain zs g where zs: "walk_entries exts p rest = (zs, g)"
      by (cases "walk_entries exts p rest") auto
    have dzs: "distinct (map path zs)"
      using "5.IH"(2) [OF ys [unfolded None, symmetric] refl wf(4)] zs by simp
    have disj: "path a \<noteq> path b" if a: "a \<in> set ys" and b: "b \<in> set zs" for a b
    proof -
      from walk_below(1) [of a exts "p @ ''/'' @ n" t] a ys
      obtain r where r: "path a = p @ ''/'' @ n @ r" "below r" by auto
      from walk_below(2) [of b exts p rest] b zs
      obtain m q where q: "m \<in> set (map fst rest)" "path b = p @ ''/'' @ m @ q" "below q" by auto
      have "CHR ''/'' \<notin> set m" using wellFormed_entries_names [OF wf(4) q(1)] .
      moreover have "n \<noteq> m" using wf(2) q(1) by auto
      ultimately show ?thesis using segments_differ [OF wf(1) _ r(2) q(3)] r(1) q(2) by simp
    qed
    have "distinct (map path (ys @ zs))"
      using dys dzs disj by (auto simp: distinct_map inj_on_def) 
    with ys None zs show ?thesis by simp
  qed
qed

lemma suffix_below:
  assumes "suffix s (a @ CHR ''/'' # b)" "CHR ''/'' \<notin> set s"
  shows "suffix s (CHR ''/'' # b)"
proof -
  from assms(1) have "suffix s (CHR ''/'' # b) \<or> (\<exists>s'. s = s' @ CHR ''/'' # b \<and> suffix s' a)"
    by (simp add: suffix_append)
  then show ?thesis
  proof
    assume "suffix s (CHR ''/'' # b)"
    then show ?thesis .
  next
    assume "\<exists>s'. s = s' @ CHR ''/'' # b \<and> suffix s' a"
    then have "CHR ''/'' \<in> set s" by auto
    with assms(2) show ?thesis by simp
  qed
qed


lemma encodePath_append:
  "encodePath unsafe (a @ b) = encodePath unsafe a @ encodePath unsafe b"
  by (simp add: encodePath_def)

lemma encodePath_Nil: "encodePath unsafe [] = []"
  by (simp add: encodePath_def)

lemma encodePath_Cons:
  "encodePath unsafe (c # p) = percentEncode unsafe c @ encodePath unsafe p"
  by (simp add: encodePath_def)

lemma encodePath_safe:
  "\<forall>c \<in> set xs. \<not> unsafe c \<Longrightarrow> encodePath unsafe xs = xs"
proof (induction xs)
  case Nil
  show ?case by (rule encodePath_Nil)
next
  case (Cons c xs)
  then have "encodePath unsafe xs = xs" and "\<not> unsafe c" by simp_all
  then show ?case by (simp add: encodePath_Cons percentEncode_def)
qed

lemma hexDigit_inj:
  assumes "a < 16" "b < 16" "hexDigit a = hexDigit b"
  shows "a = b"
proof -
  have d: "distinct ''0123456789ABCDEF''" by simp
  have l: "length ''0123456789ABCDEF'' = 16" by simp
  from assms show ?thesis
    unfolding hexDigit_def using d l by (metis nth_eq_iff_index_eq)
qed

lemma of_char_byte: "of_char (c :: char) < (256 :: nat)"
  by (cases c) simp

lemma percentEncode_unsafe_inj:
  assumes "hexDigit (of_char x div 16) = hexDigit (of_char y div 16)"
    and "hexDigit (of_char x mod 16) = hexDigit (of_char y mod 16)"
  shows "x = y"
proof -
  have bx: "(of_char x :: nat) < 256" and by': "(of_char y :: nat) < 256"
    by (rule of_char_byte)+
  have dx: "(of_char x :: nat) div 16 < 16" using bx by arith
  have dy: "(of_char y :: nat) div 16 < 16" using by' by arith
  have mx: "(of_char x :: nat) mod 16 < 16" and my: "(of_char y :: nat) mod 16 < 16" by simp_all
  have d: "(of_char x :: nat) div 16 = of_char y div 16"
    using dx dy assms(1) by (rule hexDigit_inj)
  have m: "(of_char x :: nat) mod 16 = of_char y mod 16"
    using mx my assms(2) by (rule hexDigit_inj)
  have "(of_char x :: nat) = 16 * (of_char x div 16) + of_char x mod 16" by simp
  also have "\<dots> = 16 * (of_char y div 16) + of_char y mod 16" using d m by simp
  also have "\<dots> = of_char y" by simp
  finally show ?thesis by simp
qed

lemma encodePath_inj:
  assumes "unsafe CHR ''%''"
  shows "encodePath unsafe a = encodePath unsafe b \<Longrightarrow> a = b"
proof (induction a arbitrary: b)
  case Nil
  then show ?case
    by (cases b) (auto simp: encodePath_Nil encodePath_Cons percentEncode_def split: if_splits)
next
  case (Cons x xs)
  show ?case
  proof (cases b)
    case Nil
    with Cons.prems show ?thesis
      by (auto simp: encodePath_Nil encodePath_Cons percentEncode_def split: if_splits)
  next
    case (Cons y ys)
    from Cons.prems Cons have eq:
      "percentEncode unsafe x @ encodePath unsafe xs = percentEncode unsafe y @ encodePath unsafe ys"
      by (simp add: encodePath_Cons)
    have "x = y \<and> encodePath unsafe xs = encodePath unsafe ys"
    proof (cases "unsafe x"; cases "unsafe y")
      assume "unsafe x" "unsafe y"
      with eq show ?thesis by (auto simp: percentEncode_def dest: percentEncode_unsafe_inj)
    next
      assume "unsafe x" "\<not> unsafe y"
      with eq have "y = CHR ''%''" by (simp add: percentEncode_def)
      with assms \<open>\<not> unsafe y\<close> show ?thesis by simp
    next
      assume "\<not> unsafe x" "unsafe y"
      with eq have "x = CHR ''%''" by (simp add: percentEncode_def)
      with assms \<open>\<not> unsafe x\<close> show ?thesis by simp
    next
      assume "\<not> unsafe x" "\<not> unsafe y"
      with eq show ?thesis by (simp add: percentEncode_def)
    qed
    with Cons.IH [of ys] Cons show ?thesis by simp
  qed
qed

lemma hasExt_relative_iff:
  "hasExt allowedExts (cd @ CHR ''/'' # q) = hasExt allowedExts (CHR ''/'' # q)"
proof
  assume "hasExt allowedExts (cd @ CHR ''/'' # q)"
  then obtain ext where ext: "ext \<in> set allowedExts"
    "suffix (CHR ''.'' # ext) (cd @ CHR ''/'' # q)"
    by (auto simp: hasExt_def list_ex_iff)
  from ext(1) have "CHR ''/'' \<notin> set (CHR ''.'' # ext)" by (auto simp: allowedExts_def)
  with ext(2) have "suffix (CHR ''.'' # ext) (CHR ''/'' # q)" by (rule suffix_below)
  with ext(1) show "hasExt allowedExts (CHR ''/'' # q)" by (auto simp: hasExt_def list_ex_iff)
next
  assume "hasExt allowedExts (CHR ''/'' # q)"
  then obtain ext where "ext \<in> set allowedExts" "suffix (CHR ''.'' # ext) (CHR ''/'' # q)"
    by (auto simp: hasExt_def list_ex_iff)
  then show "hasExt allowedExts (cd @ CHR ''/'' # q)"
    by (auto simp: hasExt_def list_ex_iff suffix_append)
qed

lemma hasExt_encodePath:
  assumes "pathEncodeSet unsafe" "hasExt allowedExts p"
  shows "hasExt allowedExts (encodePath unsafe p)"
proof -
  from assms(2) obtain ext where ext: "ext \<in> set allowedExts" "suffix (CHR ''.'' # ext) p"
    by (auto simp: hasExt_def list_ex_iff)
  then obtain q where q: "p = q @ CHR ''.'' # ext" by (auto simp: suffix_def)
  have "\<forall>c \<in> set (CHR ''.'' # ext). \<not> unsafe c"
    using ext(1) assms(1) by (auto simp: allowedExts_def pathEncodeSet_def)
  then have "encodePath unsafe (CHR ''.'' # ext) = CHR ''.'' # ext" by (rule encodePath_safe)
  then have "encodePath unsafe p = encodePath unsafe q @ CHR ''.'' # ext"
    by (simp add: q encodePath_append)
  then have "suffix (CHR ''.'' # ext) (encodePath unsafe p)" by (simp add: suffix_def)
  with ext(1) show ?thesis by (auto simp: hasExt_def list_ex_iff)
qed

lemma encodePath_slash:
  assumes "pathEncodeSet unsafe"
  shows "encodePath unsafe (CHR ''/'' # q) = CHR ''/'' # encodePath unsafe q"
  using assms by (simp add: encodePath_Cons percentEncode_def pathEncodeSet_def)

lemma entriesOf_append:
  "entriesOf exts p (rs @ rs') = entriesOf exts p rs @ entriesOf exts p rs'"
  by (simp add: entriesOf_def)

lemma entriesOf_step:
  "entriesOf exts p (map (\<lambda>r. CHR ''/'' # n @ r) rs) = entriesOf exts (p @ CHR ''/'' # n) rs"
  by (simp add: entriesOf_def filter_map comp_def)

lemma walk_complete:
  "snd (walk exts p t) = None \<Longrightarrow> fst (walk exts p t) = entriesOf exts p (filesOf t)"
  "snd (walk_entries exts p es) = None \<Longrightarrow>
     fst (walk_entries exts p es) = entriesOf exts p (filesOf_entries es)"
proof (induction exts p t and exts p es rule: walk_walk_entries.induct)
  case (1 exts p)
  then show ?case by (simp add: entriesOf_def)
next
  case (2 exts p e)
  then show ?case by simp
next
  case (3 exts p entries)
  then show ?case by simp
next
  case (4 exts p)
  then show ?case by (simp add: entriesOf_def)
next
  case (5 exts p n t rest)
  obtain ys f where ys: "walk exts (p @ ''/'' @ n) t = (ys, f)"
    by (cases "walk exts (p @ ''/'' @ n) t") auto
  from "5.prems" ys have f: "f = None" by (cases f) auto
  obtain zs g where zs: "walk_entries exts p rest = (zs, g)"
    by (cases "walk_entries exts p rest") auto
  from "5.prems" ys f zs have g: "g = None" by simp
  have 1: "ys = entriesOf exts (p @ ''/'' @ n) (filesOf t)"
    using "5.IH"(1) ys f by simp
  have 2: "zs = entriesOf exts p (filesOf_entries rest)"
    using "5.IH"(2) [OF ys [unfolded f, symmetric] refl] zs g by simp
  show ?case using ys f zs 1 2 by (simp add: entriesOf_append entriesOf_step)
qed

lemma walk_prefix:
  "prefix (fst (walk exts p t)) (entriesOf exts p (filesOf t))"
  "prefix (fst (walk_entries exts p es)) (entriesOf exts p (filesOf_entries es))"
proof (induction exts p t and exts p es rule: walk_walk_entries.induct)
  case (1 exts p)
  then show ?case by (simp add: entriesOf_def)
next
  case (2 exts p e)
  then show ?case by simp
next
  case (3 exts p entries)
  then show ?case by simp
next
  case (4 exts p)
  then show ?case by simp
next
  case (5 exts p n t rest)
  obtain ys f where ys: "walk exts (p @ ''/'' @ n) t = (ys, f)"
    by (cases "walk exts (p @ ''/'' @ n) t") auto
  have p1: "prefix ys (entriesOf exts (p @ ''/'' @ n) (filesOf t))"
    using "5.IH"(1) ys by simp
  show ?case
  proof (cases f)
    case (Some e)
    with ys p1 show ?thesis by (simp add: entriesOf_append entriesOf_step prefix_prefix)
  next
    case None
    obtain zs g where zs: "walk_entries exts p rest = (zs, g)"
      by (cases "walk_entries exts p rest") auto
    have 1: "ys = entriesOf exts (p @ ''/'' @ n) (filesOf t)"
      using walk_complete(1) [of exts "p @ ''/'' @ n" t] ys None by simp
    have 2: "prefix zs (entriesOf exts p (filesOf_entries rest))"
      using "5.IH"(2) [OF ys [unfolded None, symmetric] refl] zs by simp
    show ?thesis using ys None zs 1 2 by (simp add: entriesOf_append entriesOf_step)
  qed
qed

lemma walk_readable:
  "readable t \<Longrightarrow> snd (walk exts p t) = None"
  "readable_entries es \<Longrightarrow> snd (walk_entries exts p es) = None"
  by (induction exts p t and exts p es rule: walk_walk_entries.induct)
     (auto split: prod.splits option.splits)

lemma filesOf_entries_slash:
  "r \<in> set (filesOf_entries es) \<Longrightarrow> \<exists>q. r = CHR ''/'' # q"
  by (induction es) auto

lemma walk_entries_relative:
  assumes "e \<in> set (fst (walk exts cd (Dir entries)))"
  shows "\<exists>q. path e = cd @ CHR ''/'' # q
             \<and> relativeUrl unsafe cd e = encodePath unsafe (CHR ''/'' # q)"
proof -
  from assms have "e \<in> set (fst (walk_entries exts cd entries))" by simp
  from walk_below(2) [OF this] obtain n r where "path e = cd @ ''/'' @ n @ r" by blast
  then have "path e = cd @ CHR ''/'' # (n @ r)" by simp
  then show ?thesis by (simp add: relativeUrl_def toFileUrl_def encodePath_append)
qed

lemma relativeUrl_fun:
  "(\<lambda>entry. drop (length (toFileUrl unsafe cd)) (toFileUrl unsafe (path entry)))
     = relativeUrl unsafe cd"
  by (simp add: relativeUrl_def fun_eq_iff)

lemma collectComponents_result:
  assumes "collectComponents unsafe fs dir = Inr res"
  shows "res = [] \<or> (\<exists>entries. fs (componentsDirOf dir) = Some (Dir entries)
           \<and> res = sort (map (relativeUrl unsafe (componentsDirOf dir))
                          (fst (walk allowedExts (componentsDirOf dir) (Dir entries)))))"
proof (cases "readDir fs (componentsDirOf dir)")
  case (Inl err)
  with assms show ?thesis by (simp add: collectComponents_def Let_def split: if_splits)
next
  case (Inr entries)
  then have fs: "fs (componentsDirOf dir) = Some (Dir entries)"
    by (auto simp: readDir_def split: option.splits fsnode.splits)
  let ?w = "walk allowedExts (componentsDirOf dir) (Dir entries)"
  have "filter isFile (fst ?w) = fst ?w"
    by (rule filter_True) (use walk_isFile(1) in blast)
  with assms Inr have "res = sort (map (relativeUrl unsafe (componentsDirOf dir)) (fst ?w))"
    by (auto simp: collectComponents_def Let_def relativeUrl_fun
        split: prod.splits option.splits if_splits)
  with fs show ?thesis by blast
qed

lemma relativeUrl_distinct:
  assumes "wellFormed (Dir entries)" "unsafe CHR ''%''"
  shows "distinct (map (relativeUrl unsafe cd) (fst (walk exts cd (Dir entries))))"
proof -
  let ?ys = "fst (walk exts cd (Dir entries))"
  have d: "distinct (map path ?ys)" using assms(1) by (rule walk_distinct(1))
  have "inj_on (relativeUrl unsafe cd) (set ?ys)"
  proof (rule inj_onI)
    fix a b assume a: "a \<in> set ?ys" and b: "b \<in> set ?ys"
      and eq: "relativeUrl unsafe cd a = relativeUrl unsafe cd b"
    from walk_entries_relative [OF a, of unsafe] obtain q where
      q: "path a = cd @ CHR ''/'' # q" "relativeUrl unsafe cd a = encodePath unsafe (CHR ''/'' # q)"
      by blast
    from walk_entries_relative [OF b, of unsafe] obtain q' where
      q': "path b = cd @ CHR ''/'' # q'"
        "relativeUrl unsafe cd b = encodePath unsafe (CHR ''/'' # q')"
      by blast
    from eq q(2) q'(2) have "CHR ''/'' # q = CHR ''/'' # q'"
      using encodePath_inj [of unsafe, OF assms(2)] by metis
    with q(1) q'(1) have "path a = path b" by simp
    with d a b show "a = b" by (metis distinct_map inj_onD)
  qed
  with d show ?thesis by (simp add: distinct_map)
qed

lemma walk_entries_file:
  assumes "e \<in> set (fst (walk allowedExts cd (Dir entries)))" "pathEncodeSet unsafe"
  shows "\<exists>r. r \<in> set (filesOf (Dir entries)) \<and> hasExt allowedExts r
             \<and> relativeUrl unsafe cd e = encodePath unsafe r
             \<and> hasExt allowedExts (encodePath unsafe r)
             \<and> (\<exists>q. encodePath unsafe r = CHR ''/'' # q)"
proof -
  from assms(1) walk_prefix(1) [of allowedExts cd "Dir entries"]
  have "e \<in> set (entriesOf allowedExts cd (filesOf (Dir entries)))"
    using set_mono_prefix by blast
  then obtain r where r: "r \<in> set (filesOf (Dir entries))" "hasExt allowedExts (cd @ r)"
    "path e = cd @ r"
    by (auto simp: entriesOf_def)
  from r(1) obtain q where q: "r = CHR ''/'' # q" using filesOf_entries_slash by auto
  have h: "hasExt allowedExts r" using r(2) unfolding q by (simp add: hasExt_relative_iff)
  have u: "relativeUrl unsafe cd e = encodePath unsafe r"
    using r(3) by (simp add: relativeUrl_def toFileUrl_def encodePath_append)
  have s: "encodePath unsafe r = CHR ''/'' # encodePath unsafe q"
    unfolding q using assms(2) by (rule encodePath_slash)
  from r(1) h u s hasExt_encodePath [OF assms(2) h] show ?thesis by blast
qed

lemma collectComponents_readable:
  assumes "fs (componentsDirOf dir) = Some (Dir entries)" "readable (Dir entries)"
  shows "collectComponents unsafe fs dir
           = Inr (sort (map (encodePath unsafe)
                          (filter (hasExt allowedExts) (filesOf (Dir entries)))))"
proof -
  let ?cd = "componentsDirOf dir"
  let ?rs = "filesOf (Dir entries)"
  have rd: "readDir fs ?cd = Inr entries" using assms(1) by (simp add: readDir_def)
  have n: "snd (walk allowedExts ?cd (Dir entries)) = None"
    using assms(2) by (rule walk_readable(1))
  then have f: "fst (walk allowedExts ?cd (Dir entries)) = entriesOf allowedExts ?cd ?rs"
    by (rule walk_complete(1))
  have w: "walk allowedExts ?cd (Dir entries) = (entriesOf allowedExts ?cd ?rs, None)"
    using n f by (simp add: prod_eq_iff)
  have all: "filter isFile (entriesOf allowedExts ?cd ?rs) = entriesOf allowedExts ?cd ?rs"
    by (rule filter_True) (simp add: entriesOf_def)
  have flt: "filter (\<lambda>r. hasExt allowedExts (?cd @ r)) ?rs = filter (hasExt allowedExts) ?rs"
  proof (rule filter_cong [OF refl])
    fix r assume "r \<in> set ?rs"
    then obtain q where "r = CHR ''/'' # q" using filesOf_entries_slash by auto
    then show "hasExt allowedExts (?cd @ r) = hasExt allowedExts r"
      by (simp add: hasExt_relative_iff)
  qed
  have m: "map (relativeUrl unsafe ?cd) (entriesOf allowedExts ?cd ?rs)
             = map (encodePath unsafe) (filter (hasExt allowedExts) ?rs)"
    unfolding entriesOf_def flt
    by (simp add: relativeUrl_def toFileUrl_def encodePath_append comp_def)
  show ?thesis
    unfolding collectComponents_def Let_def rd relativeUrl_fun
    by (simp only: sum.case w prod.case all option.case m)
qed

text \<open>
  C6. For an encoding that encodes \<open>%\<close> and keeps the separator, the dot and the letters of
  the extensions: whenever \<open>collectComponents\<close> returns a list, the list is sorted in
  ascending lexicographic order; each of its paths is the percent-encoded path, relative to
  the components folder (it starts with the URL separator), of a file of the tree whose
  name ends with a dot and one of the four extensions, and it ends so itself; and, the
  directory tree being well formed, no path occurs twice. When every entry of the tree can
  be read, the result is exactly the sorted list of these paths for all such files.
\<close>

theorem collectComponents_sorted_distinct:
  assumes "pathEncodeSet unsafe"
  shows "(collectComponents unsafe fs dir = Inr res \<longrightarrow>
            sorted res
          \<and> (\<forall>p \<in> set res. hasExt allowedExts p \<and> (\<exists>q. p = CHR ''/'' # q))
          \<and> (\<forall>p \<in> set res. \<exists>t r. fs (componentsDirOf dir) = Some t \<and> r \<in> set (filesOf t)
                                \<and> hasExt allowedExts r \<and> p = encodePath unsafe r)
          \<and> ((\<forall>t. fs (componentsDirOf dir) = Some t \<longrightarrow> wellFormed t) \<longrightarrow> distinct res))
       \<and> (fs (componentsDirOf dir) = Some (Dir entries) \<and> readable (Dir entries) \<longrightarrow>
            collectComponents unsafe fs dir
              = Inr (sort (map (encodePath unsafe)
                             (filter (hasExt allowedExts) (filesOf (Dir entries))))))"
proof (intro conjI impI)
  assume a: "collectComponents unsafe fs dir = Inr res"
  let ?cd = "componentsDirOf dir"
  have pct: "unsafe CHR ''%''" using assms by (simp add: pathEncodeSet_def)
  from collectComponents_result [OF a]
  have "sorted res
      \<and> (\<forall>p \<in> set res. hasExt allowedExts p \<and> (\<exists>q. p = CHR ''/'' # q))
      \<and> (\<forall>p \<in> set res. \<exists>t r. fs ?cd = Some t \<and> r \<in> set (filesOf t)
                                \<and> hasExt allowedExts r \<and> p = encodePath unsafe r)
      \<and> ((\<forall>t. fs ?cd = Some t \<longrightarrow> wellFormed t) \<longrightarrow> distinct res)"
  proof
    assume "res = []"
    then show ?thesis by simp
  next
    assume "\<exists>entries. fs ?cd = Some (Dir entries)
           \<and> res = sort (map (relativeUrl unsafe ?cd)
                          (fst (walk allowedExts ?cd (Dir entries))))"
    then obtain es where fs: "fs ?cd = Some (Dir es)"
      and res: "res = sort (map (relativeUrl unsafe ?cd) (fst (walk allowedExts ?cd (Dir es))))"
      by blast
    let ?ys = "fst (walk allowedExts ?cd (Dir es))"
    have 1: "sorted res" unfolding res by simp
    have src: "\<exists>r. r \<in> set (filesOf (Dir es)) \<and> hasExt allowedExts r
             \<and> p = encodePath unsafe r \<and> hasExt allowedExts p \<and> (\<exists>q. p = CHR ''/'' # q)"
      if "p \<in> set res" for p
    proof -
      from that obtain e where e: "e \<in> set ?ys" "p = relativeUrl unsafe ?cd e"
        by (auto simp: res)
      from walk_entries_file [OF e(1) assms] e(2) show ?thesis by auto
    qed
    have 2: "\<forall>p \<in> set res. hasExt allowedExts p \<and> (\<exists>q. p = CHR ''/'' # q)"
      using src by blast
    have 3: "\<forall>p \<in> set res. \<exists>t r. fs ?cd = Some t \<and> r \<in> set (filesOf t)
                                \<and> hasExt allowedExts r \<and> p = encodePath unsafe r"
      using src fs by blast
    have 4: "(\<forall>t. fs ?cd = Some t \<longrightarrow> wellFormed t) \<longrightarrow> distinct res"
    proof
      assume "\<forall>t. fs ?cd = Some t \<longrightarrow> wellFormed t"
      with fs have "wellFormed (Dir es)" by blast
      then have "distinct (map (relativeUrl unsafe ?cd) ?ys)"
        using pct by (rule relativeUrl_distinct)
      then show "distinct res" unfolding res by (simp only: distinct_sort)
    qed
    from 1 2 3 4 show ?thesis by blast
  qed
  then show "sorted res"
    and "\<forall>p \<in> set res. hasExt allowedExts p \<and> (\<exists>q. p = CHR ''/'' # q)"
    and "\<forall>p \<in> set res. \<exists>t r. fs ?cd = Some t \<and> r \<in> set (filesOf t)
                                \<and> hasExt allowedExts r \<and> p = encodePath unsafe r"
    and "(\<forall>t. fs ?cd = Some t \<longrightarrow> wellFormed t) \<Longrightarrow> distinct res"
    by blast+
next
  assume "fs (componentsDirOf dir) = Some (Dir entries) \<and> readable (Dir entries)"
  then show "collectComponents unsafe fs dir
              = Inr (sort (map (encodePath unsafe)
                             (filter (hasExt allowedExts) (filesOf (Dir entries)))))"
    using collectComponents_readable by blast
qed

text \<open>
  C7. When nothing exists at the path of the components folder, \<open>collectComponents\<close>
  returns the empty list. An error other than not-found, raised by reading the folder or
  during the walk, is the result of the call; a not-found error never is.
\<close>

theorem collectComponents_missing_folder:
  "(fs (componentsDirOf dir) = None \<longrightarrow> collectComponents unsafe fs dir = Inr [])
   \<and> (readDir fs (componentsDirOf dir) = Inl e \<and> e \<noteq> NotFound \<longrightarrow>
        collectComponents unsafe fs dir = Inl e)
   \<and> (readDir fs (componentsDirOf dir) = Inr entries
        \<and> snd (walk allowedExts (componentsDirOf dir) (Dir entries)) = Some e \<and> e \<noteq> NotFound \<longrightarrow>
        collectComponents unsafe fs dir = Inl e)
   \<and> collectComponents unsafe fs dir \<noteq> Inl NotFound"
  by (auto simp: collectComponents_def readDir_def Let_def
      split: option.splits fsnode.splits prod.splits sum.splits if_splits)

theorem collectComponents_sorted_distinct_witness:
  "pathEncodeSet exampleUnsafe
   \<and> collectComponents exampleUnsafe exampleFs ''/app''
       = Inr [''/a.tsx'', ''/b.tsx'', ''/my%20comp.tsx'', ''/ui/a.ts'']
   \<and> exampleFs (componentsDirOf ''/app'')
       = Some (Dir [(''b.tsx'', File), (''README.md'', File),
                    (''ui'', Dir [(''a.ts'', File), (''x.css'', File)]),
                    (''my comp.tsx'', File), (''a.tsx'', File)])
   \<and> wellFormed (Dir [(''b.tsx'', File), (''README.md'', File),
                    (''ui'', Dir [(''a.ts'', File), (''x.css'', File)]),
                    (''my comp.tsx'', File), (''a.tsx'', File)])
   \<and> readable (Dir [(''b.tsx'', File), (''README.md'', File),
                    (''ui'', Dir [(''a.ts'', File), (''x.css'', File)]),
                    (''my comp.tsx'', File), (''a.tsx'', File)])
   \<and> sorted [''/a.tsx'', ''/b.tsx'', ''/my%20comp.tsx'', ''/ui/a.ts'']
   \<and> distinct [''/a.tsx'', ''/b.tsx'', ''/my%20comp.tsx'', ''/ui/a.ts'']
   \<and> hasExt allowedExts ''/my%20comp.tsx''
   \<and> sort (map (encodePath exampleUnsafe)
        (filter (hasExt allowedExts)
           (filesOf (Dir [(''b.tsx'', File), (''README.md'', File),
                    (''ui'', Dir [(''a.ts'', File), (''x.css'', File)]),
                    (''my comp.tsx'', File), (''a.tsx'', File)]))))
       = [''/a.tsx'', ''/b.tsx'', ''/my%20comp.tsx'', ''/ui/a.ts'']"
proof -
  let ?t = "Dir [(''b.tsx'', File), (''README.md'', File),
                    (''ui'', Dir [(''a.ts'', File), (''x.css'', File)]),
                    (''my comp.tsx'', File), (''a.tsx'', File)]"
  have u: "pathEncodeSet exampleUnsafe" by (simp add: pathEncodeSet_def exampleUnsafe_def)
  have h: "collectComponents exampleUnsafe exampleFs ''/app''
             = Inr [''/a.tsx'', ''/b.tsx'', ''/my%20comp.tsx'', ''/ui/a.ts'']"
    by code_simp
  have f: "exampleFs (componentsDirOf ''/app'') = Some ?t"
    by (simp add: exampleFs_def componentsDirOf_def)
  have w: "\<forall>t. exampleFs (componentsDirOf ''/app'') = Some t \<longrightarrow> wellFormed t"
    by (simp add: f)
  have w': "wellFormed ?t" by simp
  have r: "readable ?t" by simp
  note t = collectComponents_sorted_distinct [OF u, of exampleFs "''/app''"
      "[''/a.tsx'', ''/b.tsx'', ''/my%20comp.tsx'', ''/ui/a.ts'']"
      "[(''b.tsx'', File), (''README.md'', File),
                    (''ui'', Dir [(''a.ts'', File), (''x.css'', File)]),
                    (''my comp.tsx'', File), (''a.tsx'', File)]"]
  from t h w have a: "sorted [''/a.tsx'', ''/b.tsx'', ''/my%20comp.tsx'', ''/ui/a.ts'']"
    and b: "distinct [''/a.tsx'', ''/b.tsx'', ''/my%20comp.tsx'', ''/ui/a.ts'']"
    and c: "\<forall>p \<in> set [''/a.tsx'', ''/b.tsx'', ''/my%20comp.tsx'', ''/ui/a.ts''].
              hasExt allowedExts p \<and> (\<exists>q. p = CHR ''/'' # q)"
    by blast+
  from c have c': "hasExt allowedExts ''/my%20comp.tsx''" by simp
  from t f r have "collectComponents exampleUnsafe exampleFs ''/app''
      = Inr (sort (map (encodePath exampleUnsafe) (filter (hasExt allowedExts) (filesOf ?t))))"
    by blast
  with h have e: "sort (map (encodePath exampleUnsafe) (filter (hasExt allowedExts) (filesOf ?t)))
      = [''/a.tsx'', ''/b.tsx'', ''/my%20comp.tsx'', ''/ui/a.ts'']" by simp
  from u h f w' r a b c' e show ?thesis by blast
qed

theorem collectComponents_missing_folder_witness:
  "lockedFs (componentsDirOf ''/home'') = None
   \<and> collectComponents exampleUnsafe lockedFs ''/home'' = Inr []
   \<and> readDir lockedFs (componentsDirOf ''/srv'') = Inl PermissionDenied
   \<and> collectComponents exampleUnsafe lockedFs ''/srv'' = Inl PermissionDenied
   \<and> snd (walk allowedExts (componentsDirOf ''/app'')
            (Dir [(''b.tsx'', File), (''locked'', Unreadable PermissionDenied),
                  (''a.tsx'', File)])) = Some PermissionDenied
   \<and> collectComponents exampleUnsafe lockedFs ''/app'' = Inl PermissionDenied"
proof -
  have a: "lockedFs (componentsDirOf ''/home'') = None"
    by (simp add: lockedFs_def componentsDirOf_def)
  have b: "readDir lockedFs (componentsDirOf ''/srv'') = Inl PermissionDenied
           \<and> PermissionDenied \<noteq> NotFound"
    by (simp add: lockedFs_def componentsDirOf_def readDir_def)
  have c: "readDir lockedFs (componentsDirOf ''/app'')
             = Inr [(''b.tsx'', File), (''locked'', Unreadable PermissionDenied), (''a.tsx'', File)]
           \<and> snd (walk allowedExts (componentsDirOf ''/app'')
                 (Dir [(''b.tsx'', File), (''locked'', Unreadable PermissionDenied),
                       (''a.tsx'', File)])) = Some PermissionDenied
           \<and> PermissionDenied \<noteq> NotFound"
    by (simp add: lockedFs_def componentsDirOf_def readDir_def)
  from collectComponents_missing_folder [of lockedFs "''/home''" exampleUnsafe PermissionDenied "[]"]
       collectComponents_missing_folder [of lockedFs "''/srv''" exampleUnsafe PermissionDenied "[]"]
       collectComponents_missing_folder [of lockedFs "''/app''" exampleUnsafe PermissionDenied
          "[(''b.tsx'', File), (''locked'', Unreadable PermissionDenied), (''a.tsx'', File)]"]
       a b c
  show ?thesis by blast
qed

end
